theory Spec2Isabelle
  imports Main "HOL-Library.Sublist"
begin

section \<open>Python byte strings and text\<close>

text \<open>
  A Python \<open>bytes\<close> value is a list of 8-bit characters. The parser decodes header
  bytes as ISO-8859-1, which maps every byte to the code point of the same number, so
  a decoded \<open>str\<close> is modelled by the same list of characters; \<open>decode('latin1')\<close>
  and \<open>encode('latin1')\<close> are the identity and never fail on such text.
\<close>

type_synonym bytes = string

abbreviation CR :: char where "CR \<equiv> CHR 0x0D"
abbreviation LF :: char where "LF \<equiv> CHR 0x0A"
abbreviation CRLF :: string where "CRLF \<equiv> [CR, LF]"
abbreviation CRLFCRLF :: string where "CRLFCRLF \<equiv> [CR, LF, CR, LF]"

datatype exn =
    BadRequestError
  | UnsupportedProtocolError "string list"
  | ValueError
  | RuntimeError
  | TypeError
  | AttributeError
  | IndexError
  | OSError

text \<open>\<open>hay.find(needle)\<close>: the least index at which \<open>needle\<close> occurs, \<open>None\<close> for -1.\<close>

fun find_sub :: "string \<Rightarrow> string \<Rightarrow> nat option" where
  "find_sub needle [] = (if needle = [] then Some 0 else None)"
| "find_sub needle (x # xs) =
     (if prefix needle (x # xs) then Some 0 else map_option Suc (find_sub needle xs))"

text \<open>\<open>hay.find(needle)\<close> and \<open>hay.find(needle, start)\<close> as Python integers.\<close>

definition py_find :: "string \<Rightarrow> string \<Rightarrow> int" where
  "py_find needle hay = (case find_sub needle hay of None \<Rightarrow> -1 | Some i \<Rightarrow> int i)"

definition py_find_from :: "string \<Rightarrow> string \<Rightarrow> int \<Rightarrow> int" where
  "py_find_from needle hay start =
     (let n = int (length hay);
          s = (if start < 0 then max 0 (start + n) else start)
      in if s > n then -1
         else (case find_sub needle (drop (nat s) hay) of
                 None \<Rightarrow> -1
               | Some i \<Rightarrow> s + int i))"

text \<open>Slices \<open>xs[i:j]\<close> and \<open>xs[i:]\<close>: a negative index counts from the end, and
  indices are clipped to the bounds.\<close>

definition clip_index :: "nat \<Rightarrow> int \<Rightarrow> nat" where
  "clip_index n i = (if i < 0 then nat (max 0 (i + int n)) else min n (nat i))"

definition py_slice :: "'a list \<Rightarrow> int \<Rightarrow> int \<Rightarrow> 'a list" where
  "py_slice xs i j = (let a = clip_index (length xs) i; b = clip_index (length xs) j
                      in take (b - a) (drop a xs))"

definition py_slice_from :: "'a list \<Rightarrow> int \<Rightarrow> 'a list" where
  "py_slice_from xs i = drop (clip_index (length xs) i) xs"

text \<open>\<open>s.split(sep)\<close> for a non-empty separator, scanning left to right.\<close>

function split_aux :: "string \<Rightarrow> string \<Rightarrow> string \<Rightarrow> string list" where
  "split_aux sep acc [] = [rev acc]"
| "split_aux sep acc (x # xs) =
     (if sep \<noteq> [] \<and> prefix sep (x # xs)
      then rev acc # split_aux sep [] (drop (length sep) (x # xs))
      else split_aux sep (x # acc) xs)"
  by pat_completeness auto
termination
  by (relation "measure (\<lambda>(sep, acc, s). length s)") (auto simp: neq_Nil_conv)

definition split_on :: "string \<Rightarrow> string \<Rightarrow> string list" where
  "split_on sep s = split_aux sep [] s"

text \<open>\<open>s.split(sep, 1)\<close>: at most one split, at the first occurrence.\<close>

definition split1 :: "string \<Rightarrow> string \<Rightarrow> string list" where
  "split1 sep s = (case find_sub sep s of
                     None \<Rightarrow> [s]
                   | Some i \<Rightarrow> [take i s, drop (i + length sep) s])"

text \<open>Character classes. \<open>bytes\<close> methods and \<open>int(bytes, base)\<close> know the ASCII
  white space only. \<open>str.strip\<close> uses the Unicode white space, which below U+0100
  adds the separators 0x1C..0x1F, NEL (0x85) and the no-break space (0xA0). \<open>int(str)\<close>
  skips the ASCII white space, NEL and the no-break space, but not 0x1C..0x1F.\<close>

definition is_ascii_space :: "char \<Rightarrow> bool" where
  "is_ascii_space c = (let n = (of_char c :: nat) in n = 32 \<or> (9 \<le> n \<and> n \<le> 13))"

definition is_unicode_space :: "char \<Rightarrow> bool" where
  "is_unicode_space c =
     (let n = (of_char c :: nat)
      in n = 32 \<or> (9 \<le> n \<and> n \<le> 13) \<or> (28 \<le> n \<and> n \<le> 31) \<or> n = 133 \<or> n = 160)"

definition is_int_space :: "char \<Rightarrow> bool" where
  "is_int_space c =
     (let n = (of_char c :: nat)
      in n = 32 \<or> (9 \<le> n \<and> n \<le> 13) \<or> n = 133 \<or> n = 160)"

definition strip_with :: "(char \<Rightarrow> bool) \<Rightarrow> string \<Rightarrow> string" where
  "strip_with ws s = rev (dropWhile ws (rev (dropWhile ws s)))"

definition str_strip :: "string \<Rightarrow> string" where
  "str_strip = strip_with is_unicode_space"

text \<open>\<open>bytes.lower()\<close> maps A..Z only; \<open>str.lower()\<close> on ISO-8859-1 text also maps
  the accented capitals 0xC0..0xDE (but not the multiplication sign 0xD7).\<close>

definition bytes_lower_char :: "char \<Rightarrow> char" where
  "bytes_lower_char c =
     (let n = (of_char c :: nat) in if 65 \<le> n \<and> n \<le> 90 then char_of (n + 32) else c)"

definition bytes_lower :: "bytes \<Rightarrow> bytes" where
  "bytes_lower = map bytes_lower_char"

definition str_lower_char :: "char \<Rightarrow> char" where
  "str_lower_char c =
     (let n = (of_char c :: nat)
      in if (65 \<le> n \<and> n \<le> 90) \<or> (192 \<le> n \<and> n \<le> 222 \<and> n \<noteq> 215)
         then char_of (n + 32) else c)"

definition str_lower :: "string \<Rightarrow> string" where
  "str_lower = map str_lower_char"

subsection \<open>The built-in \<open>int\<close>\<close>

text \<open>
  \<open>int(text, base)\<close> for base 10 and 16, as CPython's \<open>PyLong_FromString\<close> reads it:
  surrounding white space is skipped, one sign is allowed, base 16 allows the prefix
  \<open>0x\<close> (with one underscore after it), the digits may be grouped by single
  underscores, and anything else is a \<open>ValueError\<close> (\<open>None\<close> here). A decimal text of
  more than 4300 digits is refused as well (the default digit limit).
\<close>

definition digit_value :: "char \<Rightarrow> nat" where
  "digit_value c =
     (let n = (of_char c :: nat)
      in if 48 \<le> n \<and> n \<le> 57 then n - 48
         else if 97 \<le> n \<and> n \<le> 122 then n - 87
         else if 65 \<le> n \<and> n \<le> 90 then n - 55
         else 37)"

fun scan_digits :: "nat \<Rightarrow> string \<Rightarrow> bool \<Rightarrow> nat \<Rightarrow> nat \<Rightarrow> (nat \<times> nat) option" where
  "scan_digits base [] prev_us acc cnt = (if prev_us then None else Some (acc, cnt))"
| "scan_digits base (c # cs) prev_us acc cnt =
     (if c = CHR ''_'' then (if prev_us then None else scan_digits base cs True acc cnt)
      else if digit_value c < base
           then scan_digits base cs False (acc * base + digit_value c) (Suc cnt)
      else None)"

definition has_hex_prefix :: "string \<Rightarrow> bool" where
  "has_hex_prefix s = (case s of
       a # b # _ \<Rightarrow> a = CHR ''0'' \<and> (b = CHR ''x'' \<or> b = CHR ''X'')
     | _ \<Rightarrow> False)"

definition py_int_with :: "(char \<Rightarrow> bool) \<Rightarrow> nat \<Rightarrow> string \<Rightarrow> int option" where
  "py_int_with ws base s =
     (let t = strip_with ws s;
          neg = (case t of c # _ \<Rightarrow> c = CHR ''-'' | [] \<Rightarrow> False);
          u = (case t of c # cs \<Rightarrow> if c = CHR ''+'' \<or> c = CHR ''-'' then cs else t | [] \<Rightarrow> t);
          v = (if base = 16 \<and> has_hex_prefix u
               then (case drop 2 u of c # cs \<Rightarrow> if c = CHR ''_'' then cs else c # cs | [] \<Rightarrow> [])
               else u)
      in case v of
           [] \<Rightarrow> None
         | c # cs \<Rightarrow>
             if c = CHR ''_'' then None
             else (case scan_digits base v False 0 0 of
                     None \<Rightarrow> None
                   | Some (n, cnt) \<Rightarrow>
                       if base = 10 \<and> cnt > 4300 then None
                       else Some (if neg then - int n else int n)))"

text \<open>\<open>int(s)\<close> on decoded text, and \<open>int(b, 16)\<close> on bytes.\<close>

definition int_of_str :: "string \<Rightarrow> int option" where
  "int_of_str = py_int_with is_int_space 10"

definition int_of_bytes16 :: "bytes \<Rightarrow> int option" where
  "int_of_bytes16 = py_int_with is_ascii_space 16"

section \<open>The request buffer (parser.py)\<close>

datatype ParserError = BAD_REQUEST | LENGTH_REQUIRED

datatype ParserState =
    RECEIVING_HEADERS
  | RECEIVING_BODY
  | COMPLETE
  | RECEIVING_CHUNKS
  | CHUNKS_COMPLETE
  | ERROR

text \<open>\<open>buffer\<close> and \<open>pos\<close> are the contents and the cursor of the \<open>BytesIO\<close>.\<close>

record RequestBuffer =
  buffer :: bytes
  pos :: nat
  state :: ParserState
  content_length :: "int option"
  is_chunked :: bool
  headers_end :: "nat option"
  error :: "ParserError option"

definition RequestBuffer_init :: RequestBuffer where
  "RequestBuffer_init =
     \<lparr>buffer = [], pos = 0, state = RECEIVING_HEADERS, content_length = None,
      is_chunked = False, headers_end = None, error = None\<rparr>"

text \<open>\<open>_get_is_chunked\<close>: the first line that starts with \<open>transfer-encoding:\<close> decides.\<close>

fun is_chunked_lines :: "string list \<Rightarrow> bool" where
  "is_chunked_lines [] = False"
| "is_chunked_lines (line # rest) =
     (if prefix ''transfer-encoding:'' (str_lower line)
      then (case split1 '':'' line of
              [_, v] \<Rightarrow> str_strip v = ''chunked''
            | _ \<Rightarrow> False)
      else is_chunked_lines rest)"

definition get_is_chunked :: "string \<Rightarrow> bool" where
  "get_is_chunked headers = is_chunked_lines (split_on CRLF headers)"

text \<open>\<open>_get_content_length\<close>: \<open>int\<close> of the first \<open>content-length:\<close> line; the
  \<open>ValueError\<close> of \<open>int\<close> is not caught there.\<close>

fun content_length_lines :: "string list \<Rightarrow> exn + int option" where
  "content_length_lines [] = Inr None"
| "content_length_lines (line # rest) =
     (if prefix ''content-length:'' (str_lower line)
      then (case split1 '':'' line of
              [_, v] \<Rightarrow> (case int_of_str (str_strip v) of
                          None \<Rightarrow> Inl ValueError
                        | Some n \<Rightarrow> Inr (Some n))
            | _ \<Rightarrow> Inl IndexError)
      else content_length_lines rest)"

definition get_content_length :: "string \<Rightarrow> exn + int option" where
  "get_content_length headers = content_length_lines (split_on CRLF headers)"

definition get_http_method :: "string \<Rightarrow> exn + string" where
  "get_http_method headers =
     (let lines = split_on CRLF headers;
          first_line = split_on '' '' (hd lines)
      in if length first_line \<noteq> 3 then Inl BadRequestError else Inr (hd first_line))"

text \<open>\<open>_has_final_chunk\<close>, on the bytes after the header block. The loop stops: a chunk
  is skipped only after the two bytes behind it were found to be CR LF, and then the
  rest is shorter (also for a negative size, which Python's slices read from the end).\<close>

definition chunk_size_of :: "bytes \<Rightarrow> nat \<Rightarrow> int option" where
  "chunk_size_of chunks chunk_size_end =
     int_of_bytes16 (hd (split_on '';'' (take chunk_size_end chunks)))"

function has_final_chunk_loop :: "bytes \<Rightarrow> exn + bool" where
  "has_final_chunk_loop chunks =
     (if chunks = [] then Inr False
      else case find_sub CRLF chunks of
        None \<Rightarrow> Inr False
      | Some chunk_size_end \<Rightarrow>
         (case chunk_size_of chunks chunk_size_end of
            None \<Rightarrow> Inl BadRequestError
          | Some chunk_size \<Rightarrow>
             if chunk_size = 0 then
               (if length chunks < chunk_size_end + 4 then Inr False
                else if length chunks = chunk_size_end + 4 then
                  (if py_slice chunks (int chunk_size_end) (int chunk_size_end + 4) \<noteq> CRLFCRLF
                   then Inl BadRequestError else Inr True)
                else Inl BadRequestError)
             else if int chunk_size_end + 2 + chunk_size + 2 > int (length chunks)
               then Inr False
             else if py_slice chunks (int chunk_size_end + 2 + chunk_size + 2 - 2)
                        (int chunk_size_end + 2 + chunk_size + 2) \<noteq> CRLF
               then Inl BadRequestError
             else has_final_chunk_loop
                    (py_slice_from chunks (int chunk_size_end + 2 + chunk_size + 2))))"
  by pat_completeness auto
termination
proof (relation "measure length", goal_cases)
  case 1
  show ?case by simp
next
  case (2 chunks chunk_size_end chunk_size)
  define f where "f = int chunk_size_end + 2 + chunk_size + 2"
  define a where "a = clip_index (length chunks) (f - 2)"
  define b where "b = clip_index (length chunks) f"
  from 2 have "py_slice chunks (f - 2) f = CRLF" by (simp add: f_def)
  then have "length (take (b - a) (drop a chunks)) = 2"
    by (simp add: py_slice_def Let_def a_def b_def)
  then have "0 < b" by (cases "b = 0") auto
  moreover have "b \<le> length chunks"
    unfolding b_def clip_index_def by (cases "f < 0") auto
  ultimately show ?case
    by (simp add: py_slice_from_def f_def b_def)
qed

definition he_or_0 :: "RequestBuffer \<Rightarrow> nat" where
  "he_or_0 rb = (case headers_end rb of None \<Rightarrow> 0 | Some h \<Rightarrow> h)"

definition has_final_chunk :: "RequestBuffer \<Rightarrow> exn + bool" where
  "has_final_chunk rb = has_final_chunk_loop (drop (he_or_0 rb) (buffer rb))"

text \<open>The two places of \<open>_try_parse\<close> that call \<open>_has_final_chunk\<close> and catch
  \<open>BadRequestError\<close>.\<close>

definition check_final_chunk :: "RequestBuffer \<Rightarrow> exn + RequestBuffer" where
  "check_final_chunk rb =
     (case has_final_chunk rb of
        Inr final_chunk \<Rightarrow>
          Inr (if final_chunk then rb\<lparr>state := CHUNKS_COMPLETE\<rparr> else rb)
      | Inl e \<Rightarrow>
          if e = BadRequestError
          then Inr (rb\<lparr>state := ERROR, error := Some BAD_REQUEST\<rparr>)
          else Inl e)"

definition body_size :: "RequestBuffer \<Rightarrow> exn + int" where
  "body_size rb = (case headers_end rb of
                     None \<Rightarrow> Inl TypeError
                   | Some h \<Rightarrow> Inr (int (length (buffer rb)) - int h))"

definition try_parse :: "RequestBuffer \<Rightarrow> exn + RequestBuffer" where
  "try_parse rb =
     (if state rb = RECEIVING_HEADERS then
        (case find_sub CRLFCRLF (buffer rb) of
           None \<Rightarrow> Inr rb
         | Some separator_index \<Rightarrow>
            let rb1 = rb\<lparr>headers_end := Some (separator_index + 4)\<rparr>;
                headers_data = take separator_index (buffer rb);
                rb2 = rb1\<lparr>is_chunked := get_is_chunked headers_data\<rparr>
            in if is_chunked rb2 then
                 (let rb3 = rb2\<lparr>state := RECEIVING_CHUNKS\<rparr>
                  in if int (length (buffer rb3)) - int (separator_index + 4) > 0
                     then check_final_chunk rb3 else Inr rb3)
               else
                 (case get_content_length headers_data of
                    Inl e \<Rightarrow> Inl e
                  | Inr cl \<Rightarrow>
                     let rb3 = rb2\<lparr>content_length := cl\<rparr>
                     in case get_http_method headers_data of
                          Inl e \<Rightarrow>
                            if e = BadRequestError
                            then Inr (rb3\<lparr>state := ERROR, error := Some BAD_REQUEST\<rparr>)
                            else Inl e
                        | Inr method \<Rightarrow>
                            let body_required = (method \<in> {''PUT'', ''POST'', ''PATCH''})
                            in if cl = None \<and> body_required
                               then Inr (rb3\<lparr>state := ERROR, error := Some BAD_REQUEST\<rparr>)
                               else if (cl = None \<and> \<not> body_required) \<or> cl = Some 0
                               then Inr (rb3\<lparr>state := COMPLETE\<rparr>)
                               else
                                 (let rb4 = rb3\<lparr>state := RECEIVING_BODY\<rparr>
                                  in if int (length (buffer rb4)) - int (separator_index + 4)
                                          \<ge> the cl
                                     then Inr (rb4\<lparr>state := COMPLETE\<rparr>)
                                     else Inr rb4)))
      else if state rb = RECEIVING_BODY then
        (case body_size rb of
           Inl e \<Rightarrow> Inl e
         | Inr current_body_size \<Rightarrow>
            (case content_length rb of
               None \<Rightarrow> Inr (rb\<lparr>state := COMPLETE\<rparr>)
             | Some cl \<Rightarrow>
                if current_body_size \<ge> cl then Inr (rb\<lparr>state := COMPLETE\<rparr>) else Inr rb))
      else if state rb = RECEIVING_CHUNKS then check_final_chunk rb
      else Inr rb)"

text \<open>\<open>feed_data\<close>: append at the end, leave the cursor where the new data starts,
  parse, and report whether a request is complete.\<close>

definition feed_data :: "bytes \<Rightarrow> RequestBuffer \<Rightarrow> exn + (bool \<times> RequestBuffer)" where
  "feed_data data rb =
     (case try_parse (rb\<lparr>buffer := buffer rb @ data, pos := length (buffer rb)\<rparr>) of
        Inl e \<Rightarrow> Inl e
      | Inr rb' \<Rightarrow> Inr (state rb' \<in> {COMPLETE, CHUNKS_COMPLETE}, rb'))"

text \<open>When \<open>feed_data\<close> raises, the buffer object keeps what was assigned before the
  exception: the data is appended and the cursor moved, and in \<open>RECEIVING_HEADERS\<close> with
  a complete header block \<open>_headers_end\<close> and \<open>is_chunked\<close> are set, then the state
  \<open>RECEIVING_CHUNKS\<close> for a chunked request, or else \<open>content_length\<close> unless it is
  \<open>_get_content_length\<close> that raises. \<open>feed_data\<close> gives the exception only;
  \<open>buffer_at_raise\<close> gives the object as it is left then.\<close>

definition buffer_at_raise :: "bytes \<Rightarrow> RequestBuffer \<Rightarrow> RequestBuffer" where
  "buffer_at_raise data rb =
     (let rb1 = rb\<lparr>buffer := buffer rb @ data, pos := length (buffer rb)\<rparr>
      in if state rb1 = RECEIVING_HEADERS then
           (case find_sub CRLFCRLF (buffer rb1) of
              None \<Rightarrow> rb1
            | Some separator_index \<Rightarrow>
                let headers_data = take separator_index (buffer rb1);
                    rb2 = rb1\<lparr>headers_end := Some (separator_index + 4),
                              is_chunked := get_is_chunked headers_data\<rparr>
                in if is_chunked rb2 then rb2\<lparr>state := RECEIVING_CHUNKS\<rparr>
                   else (case get_content_length headers_data of
                           Inl e \<Rightarrow> rb2
                         | Inr cl \<Rightarrow> rb2\<lparr>content_length := cl\<rparr>))
         else rb1)"

text \<open>Feeding pieces in order; an exception ends the run.\<close>

fun feed_all :: "bytes list \<Rightarrow> RequestBuffer \<Rightarrow> exn + RequestBuffer" where
  "feed_all [] rb = Inr rb"
| "feed_all (p # ps) rb =
     (case feed_data p rb of Inl e \<Rightarrow> Inl e | Inr (_, rb') \<Rightarrow> feed_all ps rb')"

definition get_request_headers :: "RequestBuffer \<Rightarrow> exn + bytes" where
  "get_request_headers rb =
     (if state rb \<notin> {COMPLETE, CHUNKS_COMPLETE, RECEIVING_BODY, RECEIVING_CHUNKS}
      then Inl RuntimeError
      else Inr (case headers_end rb of
                  None \<Rightarrow> buffer rb
                | Some h \<Rightarrow> take h (buffer rb)))"

text \<open>The dechunking loop of \<open>get_request_body\<close>. \<open>int\<close> is not guarded here and a
  negative size can leave \<open>chunk\<close> as it is, so the loop need not stop: not returning
  is \<open>None\<close>.\<close>

partial_function (option) dechunk :: "bytes \<Rightarrow> bytes \<Rightarrow> (exn + bytes) option" where
  "dechunk chunk chunked_body =
     (if chunk = [] then Some (Inr chunked_body)
      else case find_sub CRLF chunk of
        None \<Rightarrow> Some (Inl BadRequestError)
      | Some chunk_size_end \<Rightarrow>
         (case chunk_size_of chunk chunk_size_end of
            None \<Rightarrow> Some (Inl ValueError)
          | Some chunk_size \<Rightarrow>
             if int chunk_size_end + 2 + chunk_size + 2 > int (length chunk)
             then Some (Inl BadRequestError)
             else dechunk (py_slice_from chunk (int chunk_size_end + 2 + chunk_size + 2))
                    (chunked_body @
                       py_slice chunk (int chunk_size_end + 2)
                         (int chunk_size_end + chunk_size + 2))))"

declare dechunk.simps [code]

definition get_request_body :: "RequestBuffer \<Rightarrow> (exn + bytes) option" where
  "get_request_body rb =
     (if state rb \<notin> {COMPLETE, CHUNKS_COMPLETE} then Some (Inl RuntimeError)
      else if state rb = COMPLETE then
        (case content_length rb of
           None \<Rightarrow> Some (Inr [])
         | Some cl \<Rightarrow>
            if cl = 0 then Some (Inr [])
            else (case headers_end rb of
                    None \<Rightarrow> Some (Inl TypeError)
                  | Some h \<Rightarrow> Some (Inr (py_slice (buffer rb) (int h) (int h + cl)))))
      else dechunk (drop (he_or_0 rb) (buffer rb)) [])"

text \<open>\<open>parse_headers\<close>. The loop over the header lines carries \<open>has_host\<close> and
  \<open>parsed_headers\<close>; a line without a colon cannot be unpacked into name and value.\<close>

record ParsedHeaders =
  req_method :: string
  path :: string
  raw_path :: bytes
  query_string :: bytes
  headers :: "(bytes \<times> bytes) list"
  http_version :: string

fun parse_header_lines ::
  "string list \<Rightarrow> bool \<Rightarrow> (bytes \<times> bytes) list \<Rightarrow> exn + (bool \<times> (bytes \<times> bytes) list)" where
  "parse_header_lines [] has_host parsed_headers = Inr (has_host, parsed_headers)"
| "parse_header_lines (line # rest) has_host parsed_headers =
     (if line = [] \<or> prefix '':'' line then parse_header_lines rest has_host parsed_headers
      else case split1 '':'' line of
        [name, val] \<Rightarrow>
          parse_header_lines rest
            (if str_lower (str_strip name) = ''host'' \<and> val \<noteq> [] then True else has_host)
            (parsed_headers @ [(str_lower (str_strip name), str_strip val)])
      | _ \<Rightarrow> Inl BadRequestError)"

definition http_methods :: "string list" where
  "http_methods =
     [''GET'', ''POST'', ''PUT'', ''DELETE'', ''HEAD'', ''CONNECT'', ''OPTIONS'', ''TRACE'',
      ''PATCH'']"

definition http_versions :: "string list" where
  "http_versions = [''1.0'', ''1'', ''1.1'']"

definition parse_headers :: "bytes \<Rightarrow> exn + ParsedHeaders" where
  "parse_headers hs =
     (let header_lines = split_on CRLF hs;
          first_line = split_on '' '' (hd header_lines)
      in if length first_line \<noteq> 3 then Inl BadRequestError
         else
          let method = first_line ! 0;
              full_path = first_line ! 1;
              protocol = first_line ! 2
          in if method \<notin> set http_methods then Inl BadRequestError
             else
              let version = split_on ''/'' protocol
              in if length version \<noteq> 2 then Inl BadRequestError
                 else if version ! 1 \<notin> set http_versions
                   then Inl (UnsupportedProtocolError version)
                 else
                  let path = hd (split_on ''?'' full_path);
                      first_line_bytes = hd (split_on CRLF hs);
                      raw_path_start = py_find '' '' first_line_bytes + 1;
                      raw_query_start = py_find_from ''?'' first_line_bytes raw_path_start;
                      raw_path =
                        (if raw_query_start = -1
                         then py_slice first_line_bytes raw_path_start
                                (py_find_from '' '' first_line_bytes raw_path_start)
                         else py_slice first_line_bytes raw_path_start raw_query_start);
                      query =
                        (if raw_query_start = -1 then []
                         else py_slice first_line_bytes (raw_query_start + 1)
                                (py_find_from '' '' first_line_bytes raw_query_start))
                  in case parse_header_lines (tl header_lines) False [] of
                       Inl e \<Rightarrow> Inl e
                     | Inr (has_host, parsed_headers) \<Rightarrow>
                         if \<not> has_host then Inl BadRequestError
                         else Inr \<lparr>req_method = method, path = path, raw_path = raw_path,
                                   query_string = query, headers = parsed_headers,
                                   http_version = last (split_on ''/'' protocol)\<rparr>)"

section \<open>Handlers (handlers.py)\<close>

text \<open>The transport, as far as the protocol uses it: \<open>written\<close> lists the arguments
  of \<open>transport.write\<close> in order, \<open>closing\<close> is what \<open>is_closing()\<close> answers once
  \<open>close()\<close> was called.\<close>

record Transport =
  written :: "bytes list"
  closing :: bool

definition transport_write :: "bytes \<Rightarrow> Transport \<Rightarrow> Transport" where
  "transport_write data t = t\<lparr>written := written t @ [data]\<rparr>"

definition transport_close :: "Transport \<Rightarrow> Transport" where
  "transport_close t = t\<lparr>closing := True\<rparr>"

datatype TimeoutType = REQUEST | KEEP_ALIVE | ALL_TIMEOUTS

record TimerHandle =
  delay :: nat
  cancelled :: bool

record TimeoutHandler =
  request_timeout_handle :: "TimerHandle option"
  keepalive_timeout_handle :: "TimerHandle option"

definition cancel_handle :: "TimerHandle option \<Rightarrow> TimerHandle option" where
  "cancel_handle h = map_option (\<lambda>t. t\<lparr>cancelled := True\<rparr>) h"

definition cancel_timeout_handle :: "TimeoutType \<Rightarrow> TimeoutHandler \<Rightarrow> TimeoutHandler" where
  "cancel_timeout_handle ty th =
     (let th1 = (if ty \<in> {REQUEST, ALL_TIMEOUTS}
                 then th\<lparr>request_timeout_handle := cancel_handle (request_timeout_handle th)\<rparr>
                 else th)
      in if ty \<in> {KEEP_ALIVE, ALL_TIMEOUTS}
         then th1\<lparr>keepalive_timeout_handle := cancel_handle (keepalive_timeout_handle th1)\<rparr>
         else th1)"

definition reset_timeout :: "TimeoutType \<Rightarrow> nat \<Rightarrow> TimeoutHandler \<Rightarrow> TimeoutHandler" where
  "reset_timeout ty timeout th =
     (let th1 = (if ty \<in> {REQUEST, ALL_TIMEOUTS}
                 then th\<lparr>request_timeout_handle := Some \<lparr>delay = timeout, cancelled = False\<rparr>\<rparr>
                 else th)
      in if ty \<in> {KEEP_ALIVE, ALL_TIMEOUTS}
         then th1\<lparr>keepalive_timeout_handle := Some \<lparr>delay = timeout, cancelled = False\<rparr>\<rparr>
         else th1)"

text \<open>\<open>bytes(s)\<close> for a \<open>str\<close> and no encoding: Python 3 raises \<open>TypeError\<close>
  ("string argument without an encoding"), whatever the text.\<close>

definition bytes_of_str :: "string \<Rightarrow> exn + bytes" where
  "bytes_of_str s = Inl TypeError"

function str_of_nat :: "nat \<Rightarrow> string" where
  "str_of_nat n =
     (if n < 10 then [char_of (48 + n)] else str_of_nat (n div 10) @ [char_of (48 + n mod 10)])"
  by pat_completeness auto
termination
  by (relation "measure id") auto

definition str_of_int :: "int \<Rightarrow> string" where
  "str_of_int i = (if i < 0 then CHR ''-'' # str_of_nat (nat (- i)) else str_of_nat (nat i))"

definition send_protocol_error_response :: "string \<Rightarrow> Transport \<Rightarrow> exn + Transport" where
  "send_protocol_error_response error_msg t =
     (let body = ''Unsupported protocol: '' @ error_msg
      in case bytes_of_str body of
           Inl e \<Rightarrow> Inl e
         | Inr b \<Rightarrow>
            let content_len_header = ''Content-Length: '' @ str_of_nat (length b) @ CRLF
            in case bytes_of_str content_len_header of
                 Inl e \<Rightarrow> Inl e
               | Inr h \<Rightarrow>
                  (case bytes_of_str body of
                     Inl e \<Rightarrow> Inl e
                   | Inr b2 \<Rightarrow>
                      Inr (transport_close (transport_write
                        (''HTTP/1.1 505 HTTP Version Not Supported'' @ CRLF @
                         ''Content-Type: text/plain'' @ CRLF @
                         ''Connection: close'' @ CRLF @ h @ CRLF @ b2) t))))"

definition send_bad_request_response :: "Transport \<Rightarrow> Transport" where
  "send_bad_request_response t =
     transport_close (transport_write
       (''HTTP/1.1 400 Bad Request'' @ CRLF @ ''Content-Type: text/plain'' @ CRLF @
        ''Connection: close'' @ CRLF @ CRLF) t)"

definition send_length_required_response :: "Transport \<Rightarrow> Transport" where
  "send_length_required_response t =
     transport_close (transport_write
       (''HTTP/1.1 411 Length Required'' @ CRLF @ ''Content-Type: text/plain'' @ CRLF @
        ''Connection: close'' @ CRLF @ CRLF) t)"

record Scope =
  scope_http_version :: string
  scope_method :: string
  scope_scheme :: string
  scope_path :: string
  scope_raw_path :: bytes
  scope_query_string :: bytes
  scope_headers :: "(bytes \<times> bytes) list"
  scope_client :: "(string \<times> int) option"
  scope_server :: "(string \<times> int) option"

record ASGIResponseHandler =
  started :: bool
  status :: "int option"
  response_headers :: "(bytes \<times> bytes) list option"
  scope :: "Scope option"

definition ASGIResponseHandler_init :: ASGIResponseHandler where
  "ASGIResponseHandler_init =
     \<lparr>started = False, status = None, response_headers = None, scope = None\<rparr>"

section \<open>The connection protocol (protocol.py)\<close>

definition REQUEST_TIMEOUT :: nat where "REQUEST_TIMEOUT = 60"
definition KEEP_ALIVE_TIMEOUT :: nat where "KEEP_ALIVE_TIMEOUT = 5"
definition MAX_KEEP_ALIVE_REQUESTS :: nat where "MAX_KEEP_ALIVE_REQUESTS = 100"

text \<open>\<open>tasks\<close> lists the scopes of the application tasks created so far; the
  application itself runs later, on the event loop.\<close>

record HttpServerProtocol =
  transport :: Transport
  server :: "(string \<times> int) option"
  client :: "(string \<times> int) option"
  scheme :: string
  request_buffer :: RequestBuffer
  timeout_handler :: TimeoutHandler
  asgi_response_handler :: ASGIResponseHandler
  request_count :: nat
  tasks :: "Scope list"

definition connection_made ::
  "Transport \<Rightarrow> (string \<times> int) option \<Rightarrow> (string \<times> int) option \<Rightarrow> bool \<Rightarrow> HttpServerProtocol"
  where
  "connection_made t srv cli ssl =
     \<lparr>transport = t, server = srv, client = cli,
      scheme = (if ssl then ''https'' else ''http''),
      request_buffer = RequestBuffer_init,
      timeout_handler = \<lparr>request_timeout_handle = None, keepalive_timeout_handle = None\<rparr>,
      asgi_response_handler = ASGIResponseHandler_init,
      request_count = 0, tasks = []\<rparr>"

text \<open>The attribute \<open>value\<close> of a caught exception. The exception classes of utils.py
  are bare subclasses of \<open>Exception\<close> (\<open>pass\<close>): the constructor argument is kept in
  \<open>args\<close> and there is no attribute \<open>value\<close>, so reading it raises
  \<open>AttributeError\<close>.\<close>

definition exn_value :: "exn \<Rightarrow> exn + string" where
  "exn_value e = Inl AttributeError"

definition cancel_timers :: "TimeoutType \<Rightarrow> HttpServerProtocol \<Rightarrow> HttpServerProtocol" where
  "cancel_timers ty p = p\<lparr>timeout_handler := cancel_timeout_handle ty (timeout_handler p)\<rparr>"

text \<open>\<open>data_received\<close> returns the exception that leaves it, if any, and the protocol
  as it is then.\<close>

definition data_received :: "bytes \<Rightarrow> HttpServerProtocol \<Rightarrow> exn option \<times> HttpServerProtocol"
  where
  "data_received data p0 =
     (let p1 = p0\<lparr>timeout_handler :=
                   cancel_timeout_handle KEEP_ALIVE
                     (reset_timeout REQUEST REQUEST_TIMEOUT (timeout_handler p0))\<rparr>
      in case feed_data data (request_buffer p1) of
           Inl e \<Rightarrow>
             (Some e, p1\<lparr>request_buffer := buffer_at_raise data (request_buffer p1)\<rparr>)
         | Inr (_, rb) \<Rightarrow>
            let p = p1\<lparr>request_buffer := rb\<rparr>
            in if state rb \<in> {RECEIVING_CHUNKS, CHUNKS_COMPLETE, COMPLETE} then
                 (case (case get_request_headers rb of
                          Inl e \<Rightarrow> Inl e
                        | Inr hs \<Rightarrow> parse_headers hs) of
                    Inl RuntimeError \<Rightarrow> (None, p)
                  | Inl (UnsupportedProtocolError v) \<Rightarrow>
                     (let p2 = cancel_timers ALL_TIMEOUTS p
                      in case exn_value (UnsupportedProtocolError v) of
                           Inl e \<Rightarrow> (Some e, p2)
                         | Inr msg \<Rightarrow>
                            (case send_protocol_error_response msg (transport p2) of
                               Inl e \<Rightarrow> (Some e, p2)
                             | Inr t \<Rightarrow> (None, p2\<lparr>transport := t\<rparr>)))
                  | Inl BadRequestError \<Rightarrow>
                     (let p2 = cancel_timers ALL_TIMEOUTS p
                      in (None, p2\<lparr>transport := send_bad_request_response (transport p2)\<rparr>))
                  | Inl e \<Rightarrow> (Some e, p)
                  | Inr parsed_headers \<Rightarrow>
                     (let sc = \<lparr>scope_http_version = http_version parsed_headers,
                                scope_method = req_method parsed_headers,
                                scope_scheme = scheme p,
                                scope_path = path parsed_headers,
                                scope_raw_path = raw_path parsed_headers,
                                scope_query_string = query_string parsed_headers,
                                scope_headers = headers parsed_headers,
                                scope_client = client p,
                                scope_server = server p\<rparr>;
                          p2 = p\<lparr>tasks := tasks p @ [sc]\<rparr>
                      in if state rb \<in> {CHUNKS_COMPLETE, COMPLETE}
                         then (None, cancel_timers REQUEST
                                 (p2\<lparr>request_count := request_count p2 + 1,
                                     request_buffer := RequestBuffer_init\<rparr>))
                         else (None, p2)))
               else if state rb = ERROR then
                 (let p2 = cancel_timers ALL_TIMEOUTS p
                  in if error rb = Some LENGTH_REQUIRED
                     then (None, p2\<lparr>transport := send_length_required_response (transport p2)\<rparr>)
                     else (None, p2\<lparr>transport := send_bad_request_response (transport p2)\<rparr>))
               else (None, p))"

text \<open>\<open>should_keep_alive\<close>: the request count, then the first \<open>connection\<close> header of
  the scope, then the HTTP version. Without a scope, subscripting \<open>None\<close> raises.\<close>

fun connection_scan :: "(bytes \<times> bytes) list \<Rightarrow> string \<Rightarrow> bool" where
  "connection_scan [] version = (version = ''1.1'')"
| "connection_scan ((name, val) # rest) version =
     (if bytes_lower name = ''connection'' then bytes_lower val \<noteq> ''close''
      else connection_scan rest version)"

definition should_keep_alive :: "HttpServerProtocol \<Rightarrow> exn + bool" where
  "should_keep_alive p =
     (if request_count p \<ge> MAX_KEEP_ALIVE_REQUESTS then Inr False
      else case scope (asgi_response_handler p) of
             None \<Rightarrow> Inl TypeError
           | Some sc \<Rightarrow> Inr (connection_scan (scope_headers sc) (scope_http_version sc)))"

text \<open>The messages of the application. An absent \<open>body\<close> is \<open>b''\<close>, an absent
  \<open>more_body\<close> is \<open>False\<close>.\<close>

datatype Message =
    ResponseStart int "(bytes \<times> bytes) list"
  | ResponseBody "bytes option" "bool option"
  | OtherMessage string

definition format_status :: "int option \<Rightarrow> string" where
  "format_status st = (case st of None \<Rightarrow> ''None'' | Some n \<Rightarrow> str_of_int n)"

definition response_head :: "int option \<Rightarrow> (bytes \<times> bytes) list \<Rightarrow> bytes" where
  "response_head st hs =
     ''HTTP/1.1 '' @ format_status st @ CRLF @
     concat (map (\<lambda>(name, val). name @ '': '' @ val @ CRLF) hs) @ CRLF"

definition send :: "Message \<Rightarrow> HttpServerProtocol \<Rightarrow> exn option \<times> HttpServerProtocol" where
  "send message p =
     (if closing (transport p) then (Some OSError, p)
      else case message of
        ResponseStart st hs \<Rightarrow>
          (None, p\<lparr>asgi_response_handler :=
                     (asgi_response_handler p)\<lparr>started := True, status := Some st,
                                               response_headers := Some hs\<rparr>\<rparr>)
      | ResponseBody body more_body \<Rightarrow>
          if \<not> started (asgi_response_handler p) then (Some RuntimeError, p)
          else (case response_headers (asgi_response_handler p) of
                  None \<Rightarrow> (Some TypeError, p)
                | Some hs \<Rightarrow>
                   let response = response_head (status (asgi_response_handler p)) hs @
                                    (case body of None \<Rightarrow> [] | Some b \<Rightarrow> b);
                       p1 = p\<lparr>transport := transport_write response (transport p)\<rparr>
                   in if more_body = Some True then (None, p1)
                      else (case should_keep_alive p1 of
                              Inl e \<Rightarrow> (Some e, p1)
                            | Inr keep \<Rightarrow>
                               if \<not> keep
                               then (None, (cancel_timers ALL_TIMEOUTS p1)
                                             \<lparr>transport := transport_close (transport p1)\<rparr>)
                               else (None, p1\<lparr>timeout_handler :=
                                                reset_timeout KEEP_ALIVE KEEP_ALIVE_TIMEOUT
                                                  (timeout_handler p1)\<rparr>)))
      | OtherMessage ty \<Rightarrow> (None, p))"

section \<open>Predicates and inputs of the properties\<close>

text \<open>No header of the list is a \<open>Connection\<close> header.\<close>

definition no_connection_header :: "(bytes \<times> bytes) list \<Rightarrow> bool" where
  "no_connection_header hs = list_all (\<lambda>(name, val). bytes_lower name \<noteq> ''connection'') hs"

text \<open>The tokens of the request line of a header block.\<close>

definition request_line_tokens :: "bytes \<Rightarrow> string list" where
  "request_line_tokens hs = split_on '' '' (hd (split_on CRLF hs))"

text \<open>The request line has three tokens, a known method and a protocol token with one
  slash, and the version after the slash is not supported.\<close>

definition version_rejected :: "bytes \<Rightarrow> bool" where
  "version_rejected hs =
     (length (request_line_tokens hs) = 3
      \<and> request_line_tokens hs ! 0 \<in> set http_methods
      \<and> length (split_on ''/'' (request_line_tokens hs ! 2)) = 2
      \<and> split_on ''/'' (request_line_tokens hs ! 2) ! 1 \<notin> set http_versions)"

text \<open>A header line whose name, stripped and in lower case, is \<open>host\<close> and whose text
  after the first colon is not empty (before any stripping).\<close>

definition host_line :: "string \<Rightarrow> bool" where
  "host_line line =
     (line \<noteq> [] \<and> \<not> prefix '':'' line \<and>
      (case split1 '':'' line of
         [name, val] \<Rightarrow> str_lower (str_strip name) = ''host'' \<and> val \<noteq> []
       | _ \<Rightarrow> False))"

definition has_host_line :: "bytes \<Rightarrow> bool" where
  "has_host_line hs = list_ex host_line (tl (split_on CRLF hs))"

subsection \<open>Concrete inputs\<close>

definition fresh_transport :: Transport where
  "fresh_transport = \<lparr>written = [], closing = False\<rparr>"

definition fresh_protocol :: HttpServerProtocol where
  "fresh_protocol = connection_made fresh_transport None None False"

definition http2_request :: bytes where
  "http2_request = ''GET / HTTP/2.0'' @ CRLF @ ''Host: h'' @ CRLF @ CRLF"

definition bad_length_request :: bytes where
  "bad_length_request = ''GET / HTTP/1.1'' @ CRLF @ ''Content-Length: abc'' @ CRLF @ CRLF"

definition foo_protocol_headers :: bytes where
  "foo_protocol_headers = ''GET / FOO/1.1'' @ CRLF @ ''Host: h'' @ CRLF @ CRLF"

definition plain_get_headers :: bytes where
  "plain_get_headers = ''GET / HTTP/1.1'' @ CRLF @ ''Host: h'' @ CRLF @ CRLF"

definition blank_host_headers :: bytes where
  "blank_host_headers = ''GET / HTTP/1.1'' @ CRLF @ ''Host:  '' @ CRLF @ CRLF"

definition no_host_headers :: bytes where
  "no_host_headers = ''GET / HTTP/1.1'' @ CRLF @ ''Accept: */*'' @ CRLF @ CRLF"

definition no_host_http2_headers :: bytes where
  "no_host_http2_headers = ''GET / HTTP/2.0'' @ CRLF @ ''Accept: */*'' @ CRLF @ CRLF"

definition text_headers :: "(bytes \<times> bytes) list" where
  "text_headers = [(''content-type'', ''text/plain'')]"

text \<open>A connection on which the application has sent \<open>http.response.start\<close> with
  status 200, and the same after a first body message \<open>ab\<close> with \<open>more_body\<close>.\<close>

definition started_protocol :: HttpServerProtocol where
  "started_protocol = snd (send (ResponseStart 200 text_headers) fresh_protocol)"

definition streaming_protocol :: HttpServerProtocol where
  "streaming_protocol = snd (send (ResponseBody (Some ''ab'') (Some True)) started_protocol)"

text \<open>Scopes with two \<open>Connection\<close> headers that disagree, and connections that
  answer a request with such a scope.\<close>

definition close_first_scope :: Scope where
  "close_first_scope =
     \<lparr>scope_http_version = ''1.1'', scope_method = ''GET'', scope_scheme = ''http'',
      scope_path = ''/'', scope_raw_path = ''/'', scope_query_string = [],
      scope_headers = [(''host'', ''h''), (''connection'', ''Close''),
                       (''connection'', ''keep-alive'')],
      scope_client = None, scope_server = None\<rparr>"

definition keep_first_scope :: Scope where
  "keep_first_scope =
     \<lparr>scope_http_version = ''1.0'', scope_method = ''GET'', scope_scheme = ''http'',
      scope_path = ''/'', scope_raw_path = ''/'', scope_query_string = [],
      scope_headers = [(''host'', ''h''), (''connection'', ''keep-alive''),
                       (''connection'', ''close'')],
      scope_client = None, scope_server = None\<rparr>"

definition close_second_scope :: Scope where
  "close_second_scope =
     \<lparr>scope_http_version = ''1.1'', scope_method = ''GET'', scope_scheme = ''http'',
      scope_path = ''/'', scope_raw_path = ''/'', scope_query_string = [],
      scope_headers = [(''connection'', ''keep-alive''), (''connection'', ''close'')],
      scope_client = None, scope_server = None\<rparr>"

definition protocol_with_scope :: "Scope \<Rightarrow> nat \<Rightarrow> HttpServerProtocol" where
  "protocol_with_scope sc n =
     fresh_protocol\<lparr>asgi_response_handler := ASGIResponseHandler_init\<lparr>scope := Some sc\<rparr>,
                    request_count := n\<rparr>"

text \<open>In state \<open>COMPLETE\<close> with a positive declared length, the buffer holds at
  least that many bytes behind the header block.\<close>

definition body_available :: "RequestBuffer \<Rightarrow> bool" where
  "body_available rb =
     (state rb = COMPLETE \<longrightarrow>
        (case content_length rb of
           None \<Rightarrow> True
         | Some L \<Rightarrow> L \<le> 0 \<or>
             (case headers_end rb of
                None \<Rightarrow> False
              | Some h \<Rightarrow> int h + L \<le> int (length (buffer rb)))))"

text \<open>Requests with a negative \<open>Content-Length\<close>, and one with two bytes more than
  the twelve it declares.\<close>

definition minus_one_request :: bytes where
  "minus_one_request = ''GET / HTTP/1.1'' @ CRLF @ ''Content-Length: -1'' @ CRLF @ CRLF"

definition hello_request :: bytes where
  "hello_request =
     ''POST /s HTTP/1.1'' @ CRLF @ ''Host: h'' @ CRLF @ ''Content-Length: 12'' @ CRLF @ CRLF @
     ''Hello, World!!''"

definition two_token_request :: bytes where
  "two_token_request = ''GET /'' @ CRLF @ ''Content-Length: -1'' @ CRLF @ CRLF"

definition negative_length_request :: bytes where
  "negative_length_request =
     ''POST /x HTTP/1.1'' @ CRLF @ ''Host: h'' @ CRLF @ ''Content-Length: -53'' @ CRLF @ CRLF @
     ''Hello, World''"

text \<open>A chunked body as the framing rules describe it: chunks of a size line (whose
  hexadecimal size is read as the parser reads it, positive), CR LF, that many bytes and
  CR LF, ended by a chunk of size zero with CR LF CR LF right behind its size line and
  nothing after it.\<close>

function legal_chunks :: "bytes \<Rightarrow> bool" where
  "legal_chunks chunks =
     (case find_sub CRLF chunks of
        None \<Rightarrow> False
      | Some chunk_size_end \<Rightarrow>
         (case chunk_size_of chunks chunk_size_end of
            None \<Rightarrow> False
          | Some chunk_size \<Rightarrow>
             if chunk_size < 0 then False
             else if chunk_size = 0 then drop chunk_size_end chunks = CRLFCRLF
             else if length chunks < chunk_size_end + 2 + nat chunk_size + 2 then False
             else if take 2 (drop (chunk_size_end + 2 + nat chunk_size) chunks) \<noteq> CRLF
               then False
             else legal_chunks (drop (chunk_size_end + 2 + nat chunk_size + 2) chunks)))"
  by pat_completeness auto
termination
  by (relation "measure length") auto

text \<open>A legal request: a header block ended by CR LF CR LF whose request line has three
  tokens, followed either by a legal chunked body, when the headers say chunked, or by
  exactly as many bytes as a non-negative Content-Length declares, or by nothing when
  there is no Content-Length and the method needs none.\<close>

definition legal_request :: "bytes \<Rightarrow> bool" where
  "legal_request r =
     (case find_sub CRLFCRLF r of
        None \<Rightarrow> False
      | Some i \<Rightarrow>
         (case get_http_method (take i r) of
            Inl e \<Rightarrow> False
          | Inr m \<Rightarrow>
             if get_is_chunked (take i r) then legal_chunks (drop (i + 4) r)
             else (case get_content_length (take i r) of
                     Inl e \<Rightarrow> False
                   | Inr None \<Rightarrow> m \<notin> {''PUT'', ''POST'', ''PATCH''} \<and> drop (i + 4) r = []
                   | Inr (Some n) \<Rightarrow> 0 \<le> n \<and> int (length (drop (i + 4) r)) = n)))"

text \<open>A chunked upload, and the same bytes cut into three pieces inside the header
  block and inside the first chunk.\<close>

definition chunked_request :: bytes where
  "chunked_request =
     ''POST /u HTTP/1.1'' @ CRLF @ ''Host: h'' @ CRLF @ ''Transfer-Encoding: chunked'' @ CRLF @
     CRLF @ ''5'' @ CRLF @ ''Hello'' @ CRLF @ ''6'' @ CRLF @ ''World!'' @ CRLF @ ''0'' @ CRLF @ CRLF"

definition chunked_pieces :: "bytes list" where
  "chunked_pieces =
     [take 20 chunked_request, take 40 (drop 20 chunked_request), drop 60 chunked_request]"

section \<open>Properties\<close>

subsection \<open>The 505 response\<close>

text \<open>
  C1. A request whose version token is not 1.0, 1 or 1.1 should be answered by a 505
  response naming the version, followed by closing the connection. On the request
  \<open>GET / HTTP/2.0\<close> the handler of \<open>UnsupportedProtocolError\<close> reads the attribute
  \<open>value\<close>, which the exception does not have: \<open>AttributeError\<close> leaves
  \<open>data_received\<close>, nothing is written and the transport is not closed. Moreover
  \<open>send_protocol_error_response\<close> itself raises \<open>TypeError\<close> for every message,
  before it writes, since it calls \<open>bytes\<close> on a \<open>str\<close> without an encoding.
\<close>

theorem unsupported_version_no_505:
  "fst (data_received http2_request fresh_protocol) = Some AttributeError
   \<and> transport (snd (data_received http2_request fresh_protocol)) = fresh_transport
   \<and> send_protocol_error_response error_msg t = Inl TypeError"
proof -
  have a: "fst (data_received http2_request fresh_protocol) = Some AttributeError"
    by code_simp
  have b: "transport (snd (data_received http2_request fresh_protocol)) = fresh_transport"
    by code_simp
  have c: "send_protocol_error_response error_msg t = Inl TypeError"
    by (simp add: send_protocol_error_response_def bytes_of_str_def)
  from a b c show ?thesis by simp
qed

subsection \<open>Exceptions of \<open>feed_data\<close>\<close>

text \<open>
  C2. \<open>feed_data\<close> should never raise and report every parse error through the state
  \<open>ERROR\<close>. A \<open>Content-Length\<close> that is not a decimal integer makes \<open>int\<close> raise
  \<open>ValueError\<close> in \<open>_get_content_length\<close>, and nothing catches it: \<open>feed_data\<close>
  raises.
\<close>

theorem content_length_not_decimal_raises:
  "feed_data bad_length_request RequestBuffer_init = Inl ValueError"
  by code_simp

subsection \<open>Writing the response\<close>

text \<open>
  C3, as stated, fails: the second body message of a streamed response writes the status
  line and the header block again, before its body bytes.
\<close>

theorem second_body_message_repeats_head:
  "written (transport (snd (send (ResponseBody (Some ''cd'') (Some True)) streaming_protocol)))
   = [''HTTP/1.1 200'' @ CRLF @ ''content-type: text/plain'' @ CRLF @ CRLF @ ''ab'',
      ''HTTP/1.1 200'' @ CRLF @ ''content-type: text/plain'' @ CRLF @ CRLF @ ''cd'']"
  by code_simp

text \<open>
  C3, amended. Every \<open>http.response.body\<close> message sent after \<open>http.response.start\<close>
  on a transport that is not closing writes, in one call, the status line and the
  header block followed by its body bytes, and leaves the recorded status and headers as
  they are: the first body message and every later one alike.
\<close>

theorem body_message_writes_head_and_body:
  assumes "\<not> closing (transport p)"
    and "started (asgi_response_handler p)"
    and "response_headers (asgi_response_handler p) = Some hs"
  shows "written (transport (snd (send (ResponseBody body more_body) p)))
           = written (transport p) @
             [response_head (status (asgi_response_handler p)) hs @
              (case body of None \<Rightarrow> [] | Some b \<Rightarrow> b)]
         \<and> asgi_response_handler (snd (send (ResponseBody body more_body) p))
           = asgi_response_handler p"
  using assms
  by (auto simp: send_def Let_def transport_write_def transport_close_def cancel_timers_def
      should_keep_alive_def split: sum.splits option.splits)

theorem body_message_writes_head_and_body_witness:
  "\<not> closing (transport streaming_protocol)
   \<and> started (asgi_response_handler streaming_protocol)
   \<and> response_headers (asgi_response_handler streaming_protocol) = Some text_headers
   \<and> written (transport (snd (send (ResponseBody (Some ''cd'') None) streaming_protocol)))
       = written (transport streaming_protocol) @
         [response_head (status (asgi_response_handler streaming_protocol)) text_headers @ ''cd'']"
proof -
  have a: "\<not> closing (transport streaming_protocol)" by code_simp
  have b: "started (asgi_response_handler streaming_protocol)" by code_simp
  have c: "response_headers (asgi_response_handler streaming_protocol) = Some text_headers"
    by code_simp
  from body_message_writes_head_and_body [OF a b c, of "Some ''cd''" None] a b c
  show ?thesis by simp
qed

subsection \<open>The request line and the Host header in \<open>parse_headers\<close>\<close>

text \<open>
  C4, as stated, fails: a header block whose protocol token is \<open>FOO/1.1\<close> is parsed.
\<close>

theorem foo_protocol_accepted:
  "parse_headers foo_protocol_headers =
     Inr \<lparr>req_method = ''GET'', path = ''/'', raw_path = ''/'', query_string = [],
          headers = [(''host'', ''h'')], http_version = ''1.1''\<rparr>"
  by code_simp

lemma list_two: "length xs = 2 \<Longrightarrow> xs = [xs ! 0, xs ! 1]"
  by (cases xs; cases "tl xs") auto

text \<open>
  C4, amended. \<open>parse_headers\<close> validates that the request line has three tokens, that
  the third token splits at \<open>/\<close> into exactly two parts, and that the part after the
  slash is 1.0, 1 or 1.1, which becomes \<open>http_version\<close>; the part before the slash is
  not compared with \<open>HTTP\<close>.
\<close>

theorem parse_headers_checks_version_only:
  assumes "parse_headers hs = Inr r"
  shows "length (request_line_tokens hs) = 3
         \<and> (\<exists>pre. split_on ''/'' (request_line_tokens hs ! 2) = [pre, http_version r])
         \<and> http_version r \<in> set http_versions"
proof -
  let ?v = "split_on ''/'' (request_line_tokens hs ! 2)"
  from assms have len: "length (request_line_tokens hs) = 3"
    and v2: "length ?v = 2" and ok: "?v ! 1 \<in> set http_versions"
    and r: "http_version r = last ?v"
    by (auto simp: parse_headers_def Let_def request_line_tokens_def
        split: if_splits sum.splits prod.splits)
  from list_two [OF v2] have eq: "?v = [?v ! 0, ?v ! 1]" .
  then have "last ?v = ?v ! 1" by (metis last.simps list.distinct(1))
  with len eq ok r show ?thesis by auto
qed

theorem parse_headers_checks_version_only_witness:
  "parse_headers plain_get_headers =
     Inr \<lparr>req_method = ''GET'', path = ''/'', raw_path = ''/'', query_string = [],
          headers = [(''host'', ''h'')], http_version = ''1.1''\<rparr>
   \<and> length (request_line_tokens plain_get_headers) = 3
   \<and> (\<exists>pre. split_on ''/'' (request_line_tokens plain_get_headers ! 2) = [pre, ''1.1''])
   \<and> ''1.1'' \<in> set http_versions"
proof -
  have h: "parse_headers plain_get_headers =
     Inr \<lparr>req_method = ''GET'', path = ''/'', raw_path = ''/'', query_string = [],
          headers = [(''host'', ''h'')], http_version = ''1.1''\<rparr>"
    by code_simp
  from parse_headers_checks_version_only [OF h] h show ?thesis by simp
qed

lemma parse_header_lines_error:
  "parse_header_lines ls hh acc = Inl e \<Longrightarrow> e = BadRequestError"
  by (induction ls arbitrary: hh acc) (auto split: if_splits list.splits)

lemma parse_header_lines_host:
  "parse_header_lines ls hh acc = Inr (hh', acc') \<Longrightarrow> hh' = (hh \<or> list_ex host_line ls)"
proof (induction ls arbitrary: hh acc)
  case Nil
  then show ?case by simp
next
  case (Cons line rest)
  show ?case
  proof (cases "line = [] \<or> prefix '':'' line")
    case True
    with Cons show ?thesis by (auto simp: host_line_def)
  next
    case False
    with Cons.prems obtain name val where nv: "split1 '':'' line = [name, val]"
      by (auto split: list.splits)
    from Cons.prems False nv
    have "parse_header_lines rest
            (if str_lower (str_strip name) = ''host'' \<and> val \<noteq> [] then True else hh)
            (acc @ [(str_lower (str_strip name), str_strip val)]) = Inr (hh', acc')"
      by simp
    from Cons.IH [OF this] False nv show ?thesis
      by (auto simp: host_line_def)
  qed
qed

text \<open>
  The guard on the Host value tests the text after the colon as it is, while the value
  stored in the result is stripped: \<open>Host:\<close> followed by white space alone passes the
  guard and leaves an empty host value in the result.
\<close>

lemma blank_host_accepted:
  "parse_headers blank_host_headers =
     Inr \<lparr>req_method = ''GET'', path = ''/'', raw_path = ''/'', query_string = [],
          headers = [(''host'', [])], http_version = ''1.1''\<rparr>"
  by code_simp

text \<open>
  C8, as stated, fails: a header block without any Host header whose request line names
  an unsupported version fails with \<open>UNSUPPORTED_PROTOCOL\<close>, not with
  \<open>BAD_REQUEST\<close>, since the version is checked before the header lines are read.
\<close>

theorem missing_host_unsupported_version:
  "\<not> has_host_line no_host_http2_headers
   \<and> parse_headers no_host_http2_headers = Inl (UnsupportedProtocolError [''HTTP'', ''2.0''])"
  by code_simp

text \<open>
  C8, amended. \<open>parse_headers\<close> fails for every header block that has no Host header
  line, or whose Host header lines all have an empty value: with
  \<open>UNSUPPORTED_PROTOCOL\<close> when the request line is well-formed but its version is not
  supported (that check comes first), with \<open>BAD_REQUEST\<close> otherwise. Nothing is said
  here about a Host value that consists of white space only.
\<close>

theorem missing_host_rejected:
  assumes "\<not> has_host_line hs"
  shows "parse_headers hs =
           (if version_rejected hs
            then Inl (UnsupportedProtocolError (split_on ''/'' (request_line_tokens hs ! 2)))
            else Inl BadRequestError)"
proof (cases "parse_header_lines (tl (split_on CRLF hs)) False []")
  case (Inl e)
  then have "e = BadRequestError" by (rule parse_header_lines_error)
  with Inl show ?thesis
    by (auto simp: parse_headers_def Let_def version_rejected_def request_line_tokens_def)
next
  case (Inr res)
  obtain hh acc where res: "res = (hh, acc)" by (cases res)
  from parse_header_lines_host [of "tl (split_on CRLF hs)" False "[]" hh acc] Inr res assms
  have "\<not> hh" by (simp add: has_host_line_def)
  with Inr res show ?thesis
    by (auto simp: parse_headers_def Let_def version_rejected_def request_line_tokens_def)
qed

theorem missing_host_rejected_witness:
  "\<not> has_host_line no_host_headers
   \<and> \<not> version_rejected no_host_headers
   \<and> parse_headers no_host_headers = Inl BadRequestError"
proof -
  have h: "\<not> has_host_line no_host_headers" by code_simp
  have v: "\<not> version_rejected no_host_headers" by code_simp
  from missing_host_rejected [OF h] h v show ?thesis by simp
qed

subsection \<open>The keep-alive decision\<close>

lemma connection_scan_first:
  "no_connection_header pre \<Longrightarrow> bytes_lower name = ''connection'' \<Longrightarrow>
   connection_scan (pre @ (name, val) # rest) v = (bytes_lower val \<noteq> ''close'')"
  by (induction pre) (auto simp: no_connection_header_def)

lemma connection_scan_none:
  "no_connection_header hs \<Longrightarrow> connection_scan hs v = (v = ''1.1'')"
  by (induction hs) (auto simp: no_connection_header_def)

text \<open>
  C7, as stated, fails: with the request count below the maximum, request headers that
  contain a Connection header equal to \<open>close\<close> are accepted when another Connection
  header with a different value comes first.
\<close>

theorem close_behind_keep_alive_accepted:
  "request_count (protocol_with_scope close_second_scope 0) < MAX_KEEP_ALIVE_REQUESTS
   \<and> (''connection'', ''close'') \<in> set (scope_headers close_second_scope)
   \<and> should_keep_alive (protocol_with_scope close_second_scope 0) = Inr True"
  by code_simp

text \<open>
  C7, amended. The keep-alive decision refuses whenever the request count has reached
  \<open>MAX_KEEP_ALIVE_REQUESTS\<close>, which is 100. Below that, the first Connection header of
  the request headers decides: it refuses when that header's value is \<open>close\<close> in
  any letter case and accepts for any other value; without a Connection header it
  accepts exactly when the HTTP version of the request is 1.1.
\<close>

theorem keep_alive_decision:
  "MAX_KEEP_ALIVE_REQUESTS = 100
   \<and> (MAX_KEEP_ALIVE_REQUESTS \<le> request_count p \<longrightarrow> should_keep_alive p = Inr False)
   \<and> (request_count p < MAX_KEEP_ALIVE_REQUESTS
        \<and> scope (asgi_response_handler p) = Some sc
        \<and> scope_headers sc = pre @ (name, val) # rest
        \<and> no_connection_header pre \<and> bytes_lower name = ''connection''
      \<longrightarrow> should_keep_alive p = Inr (bytes_lower val \<noteq> ''close''))
   \<and> (request_count p < MAX_KEEP_ALIVE_REQUESTS
        \<and> scope (asgi_response_handler p) = Some sc
        \<and> no_connection_header (scope_headers sc)
      \<longrightarrow> should_keep_alive p = Inr (scope_http_version sc = ''1.1''))"
  by (auto simp: should_keep_alive_def MAX_KEEP_ALIVE_REQUESTS_def connection_scan_first
      connection_scan_none)

theorem keep_alive_decision_witness:
  "request_count (protocol_with_scope close_first_scope 3) < MAX_KEEP_ALIVE_REQUESTS
   \<and> scope (asgi_response_handler (protocol_with_scope close_first_scope 3))
       = Some close_first_scope
   \<and> scope_headers close_first_scope
       = [(''host'', ''h'')] @ (''connection'', ''Close'') # [(''connection'', ''keep-alive'')]
   \<and> no_connection_header [(''host'', ''h'')]
   \<and> bytes_lower ''connection'' = ''connection''
   \<and> should_keep_alive (protocol_with_scope close_first_scope 3) = Inr False"
proof -
  have a: "request_count (protocol_with_scope close_first_scope 3) < MAX_KEEP_ALIVE_REQUESTS"
    by code_simp
  have b: "scope (asgi_response_handler (protocol_with_scope close_first_scope 3))
             = Some close_first_scope"
    by code_simp
  have c: "scope_headers close_first_scope
       = [(''host'', ''h'')] @ (''connection'', ''Close'') # [(''connection'', ''keep-alive'')]"
    by code_simp
  have d: "no_connection_header [(''host'', ''h'')]" by code_simp
  have e: "bytes_lower ''connection'' = ''connection''" by code_simp
  have f: "bytes_lower ''Close'' = ''close''" by code_simp
  from keep_alive_decision [of "protocol_with_scope close_first_scope 3" close_first_scope
      "[(''host'', ''h'')]" "''connection''" "''Close''" "[(''connection'', ''keep-alive'')]"]
    a b c d e f
  show ?thesis by simp
qed

text \<open>
  C10. With more than one Connection header in the scope, the first one decides the
  keep-alive decision: the headers behind it and the HTTP version can be replaced by
  anything without changing the result, which is to keep the connection exactly when the
  request count is below the maximum and the first value is not \<open>close\<close>.
\<close>

theorem first_connection_header_decides:
  assumes "scope (asgi_response_handler p) = Some sc"
    and "scope_headers sc = pre @ (name, val) # rest"
    and "no_connection_header pre"
    and "bytes_lower name = ''connection''"
  shows "should_keep_alive p =
           Inr (request_count p < MAX_KEEP_ALIVE_REQUESTS \<and> bytes_lower val \<noteq> ''close'')
         \<and> should_keep_alive p =
             should_keep_alive
               (p\<lparr>asgi_response_handler :=
                    (asgi_response_handler p)
                      \<lparr>scope := Some (sc\<lparr>scope_headers := pre @ (name, val) # rest',
                                        scope_http_version := version'\<rparr>)\<rparr>\<rparr>)"
  using assms by (auto simp: should_keep_alive_def connection_scan_first)

theorem first_connection_header_decides_witness:
  "scope (asgi_response_handler (protocol_with_scope keep_first_scope 0)) = Some keep_first_scope
   \<and> scope_headers keep_first_scope
       = [(''host'', ''h'')] @ (''connection'', ''keep-alive'') # [(''connection'', ''close'')]
   \<and> no_connection_header [(''host'', ''h'')]
   \<and> bytes_lower ''connection'' = ''connection''
   \<and> should_keep_alive (protocol_with_scope keep_first_scope 0) = Inr True"
proof -
  have a: "scope (asgi_response_handler (protocol_with_scope keep_first_scope 0))
             = Some keep_first_scope"
    by code_simp
  have b: "scope_headers keep_first_scope
       = [(''host'', ''h'')] @ (''connection'', ''keep-alive'') # [(''connection'', ''close'')]"
    by code_simp
  have c: "no_connection_header [(''host'', ''h'')]" by code_simp
  have d: "bytes_lower ''connection'' = ''connection''" by code_simp
  have e: "request_count (protocol_with_scope keep_first_scope 0) < MAX_KEEP_ALIVE_REQUESTS"
    by code_simp
  have f: "bytes_lower ''keep-alive'' \<noteq> ''close''" by code_simp
  from first_connection_header_decides [OF a b c d] a b c d e f
  show ?thesis by simp
qed

subsection \<open>Searching and slicing\<close>

lemma prefix_take_eq: "prefix n xs \<longleftrightarrow> length n \<le> length xs \<and> take (length n) xs = n"
  by (metis prefix_length_le take_is_prefix append_eq_conv_conj prefix_def)

lemma find_sub_Some:
  "find_sub n xs = Some i \<Longrightarrow> i + length n \<le> length xs \<and> take (length n) (drop i xs) = n"
proof (induction xs arbitrary: i)
  case Nil
  then show ?case by (auto split: if_splits)
next
  case (Cons x xs)
  show ?case
  proof (cases "prefix n (x # xs)")
    case True
    with Cons.prems show ?thesis by (auto simp: prefix_take_eq)
  next
    case False
    with Cons.prems obtain j where "find_sub n xs = Some j" "i = Suc j" by auto
    with Cons.IH [of j] show ?thesis by simp
  qed
qed

lemma find_sub_None:
  "find_sub n xs = None \<Longrightarrow> i + length n \<le> length xs \<Longrightarrow> take (length n) (drop i xs) \<noteq> n"
proof (induction xs arbitrary: i)
  case Nil
  then show ?case by (auto split: if_splits)
next
  case (Cons x xs)
  from Cons.prems(1) have np: "\<not> prefix n (x # xs)" and r: "find_sub n xs = None"
    by (auto split: if_splits)
  show ?case
  proof (cases i)
    case 0
    with np Cons.prems(2) show ?thesis by (auto simp: prefix_take_eq)
  next
    case (Suc j)
    with Cons.IH [OF r, of j] Cons.prems(2) show ?thesis by simp
  qed
qed

lemma find_sub_append:
  "find_sub n xs = Some i \<Longrightarrow> find_sub n (xs @ ys) = Some i"
proof (induction xs arbitrary: i)
  case Nil
  then show ?case by (cases ys) (auto split: if_splits)
next
  case (Cons x xs)
  show ?case
  proof (cases "prefix n (x # xs)")
    case True
    then have "prefix n ((x # xs) @ ys)" by (rule prefix_prefix)
    with True Cons.prems show ?thesis by simp
  next
    case False
    with Cons.prems obtain j where j: "find_sub n xs = Some j" "i = Suc j" by auto
    from find_sub_Some [OF j(1)] have "length n \<le> length (x # xs)" by simp
    with False have "\<not> prefix n (x # xs @ ys)"
      using prefix_append [of n "x # xs" ys] by (auto simp: prefix_def)
    with Cons.IH [OF j(1)] j show ?thesis by simp
  qed
qed

lemma find_sub_prefix_Some:
  assumes "find_sub n (xs @ ys) = Some i" and "i + length n \<le> length xs"
  shows "find_sub n xs = Some i"
proof (cases "find_sub n xs")
  case None
  from find_sub_Some [OF assms(1)] assms(2)
  have "take (length n) (drop i xs) = n" by simp
  with find_sub_None [OF None assms(2)] show ?thesis by simp
next
  case (Some j)
  from find_sub_append [OF Some, of ys] assms(1) Some show ?thesis by simp
qed

lemma find_sub_prefix_None:
  assumes "find_sub n (xs @ ys) = Some i" and "length xs < i + length n"
  shows "find_sub n xs = None"
proof (cases "find_sub n xs")
  case None
  then show ?thesis .
next
  case (Some j)
  from find_sub_append [OF Some, of ys] assms(1) have "j = i" by simp
  with find_sub_Some [OF Some] assms(2) show ?thesis by simp
qed

lemma clip_index_nat: "clip_index n (int a) = min n a"
  by (simp add: clip_index_def)

lemma py_slice_nat: "py_slice xs (int a) (int b) = take (b - a) (drop a xs)"
  by (cases "a < length xs"; cases "b < length xs")
     (auto simp: py_slice_def Let_def clip_index_nat min_def)

lemma py_slice_from_nat: "py_slice_from xs (int a) = drop a xs"
  by (auto simp: py_slice_from_def clip_index_nat min_def)

subsection \<open>Negative and declared body lengths\<close>

text \<open>
  C9, as stated, fails: a request whose Content-Length parses to -1 and whose request
  line has two tokens only is reported as an error, \<open>BAD_REQUEST\<close> in state
  \<open>ERROR\<close>; the request line is checked before the length is looked at.
\<close>

theorem negative_length_bad_request_line:
  "feed_data two_token_request RequestBuffer_init =
     Inr (False,
          \<lparr>buffer = two_token_request, pos = 0, state = ERROR, content_length = Some (- 1),
           is_chunked = False, headers_end = Some 29, error = Some BAD_REQUEST\<rparr>)"
  by code_simp

text \<open>
  C9, amended. When the header block of a non-chunked request with a three-token request
  line is complete and its Content-Length parses to a negative integer, \<open>feed_data\<close>
  reports no error: it returns true with the parser in state \<open>COMPLETE\<close> at once and
  the error tag untouched, and \<open>get_request_body\<close> then returns the slice from the
  end of the header block to that position plus the negative length.
\<close>

theorem negative_content_length_completes:
  assumes "state rb = RECEIVING_HEADERS"
    and "find_sub CRLFCRLF (buffer rb @ data) = Some i"
    and "\<not> get_is_chunked (take i (buffer rb @ data))"
    and "get_content_length (take i (buffer rb @ data)) = Inr (Some L)"
    and "L < 0"
    and "get_http_method (take i (buffer rb @ data)) = Inr m"
  shows "\<exists>rb'. feed_data data rb = Inr (True, rb')
           \<and> state rb' = COMPLETE \<and> error rb' = error rb
           \<and> content_length rb' = Some L
           \<and> get_request_body rb' =
               Some (Inr (py_slice (buffer rb @ data) (int (i + 4)) (int (i + 4) + L)))"
proof -
  from find_sub_Some [OF assms(2)] have "i + 4 \<le> length (buffer rb @ data)" by simp
  with assms(5) have "L \<le> int (length (buffer rb)) + int (length data) - (int i + 4)"
    by simp
  with assms show ?thesis
    by (simp add: feed_data_def try_parse_def Let_def get_request_body_def)
qed

theorem negative_content_length_completes_witness:
  "state RequestBuffer_init = RECEIVING_HEADERS
   \<and> find_sub CRLFCRLF (buffer RequestBuffer_init @ negative_length_request) = Some 46
   \<and> \<not> get_is_chunked (take 46 (buffer RequestBuffer_init @ negative_length_request))
   \<and> get_content_length (take 46 (buffer RequestBuffer_init @ negative_length_request))
       = Inr (Some (- 53))
   \<and> get_http_method (take 46 (buffer RequestBuffer_init @ negative_length_request))
       = Inr ''POST''
   \<and> (\<exists>rb'. feed_data negative_length_request RequestBuffer_init = Inr (True, rb')
          \<and> state rb' = COMPLETE \<and> error rb' = None
          \<and> get_request_body rb' = Some (Inr ''Hello, Wo''))"
proof -
  have a: "state RequestBuffer_init = RECEIVING_HEADERS" by code_simp
  have b: "find_sub CRLFCRLF (buffer RequestBuffer_init @ negative_length_request) = Some 46"
    by code_simp
  have c: "\<not> get_is_chunked (take 46 (buffer RequestBuffer_init @ negative_length_request))"
    by code_simp
  have d: "get_content_length (take 46 (buffer RequestBuffer_init @ negative_length_request))
       = Inr (Some (- 53))"
    by code_simp
  have e: "(- 53 :: int) < 0" by simp
  have f: "get_http_method (take 46 (buffer RequestBuffer_init @ negative_length_request))
       = Inr ''POST''"
    by code_simp
  have g: "py_slice (buffer RequestBuffer_init @ negative_length_request) (int (46 + 4))
             (int (46 + 4) + - 53) = ''Hello, Wo''"
    by code_simp
  have h: "error RequestBuffer_init = None" by code_simp
  from negative_content_length_completes [OF a b c d e f] obtain rb'
    where r: "feed_data negative_length_request RequestBuffer_init = Inr (True, rb')"
      "state rb' = COMPLETE" "error rb' = error RequestBuffer_init"
      "get_request_body rb' =
         Some (Inr (py_slice (buffer RequestBuffer_init @ negative_length_request)
                      (int (46 + 4)) (int (46 + 4) + - 53)))"
    by blast
  from r(4) g have body: "get_request_body rb' = Some (Inr ''Hello, Wo'')" by simp
  from r(3) h have err: "error rb' = None" by simp
  from r(1,2) err body
  have "\<exists>rb'. feed_data negative_length_request RequestBuffer_init = Inr (True, rb')
          \<and> state rb' = COMPLETE \<and> error rb' = None
          \<and> get_request_body rb' = Some (Inr ''Hello, Wo'')"
    by blast
  with a b c d f show ?thesis by blast
qed

lemma check_final_chunk_not_complete:
  "check_final_chunk rb = Inr rb' \<Longrightarrow> state rb \<noteq> COMPLETE \<Longrightarrow> state rb' \<noteq> COMPLETE"
  by (auto simp: check_final_chunk_def split: sum.splits if_splits)

lemma try_parse_body_available:
  assumes "try_parse rb = Inr rb'"
    and "state rb = COMPLETE \<longrightarrow> body_available rb"
  shows "body_available rb'"
proof (cases "state rb")
  case RECEIVING_HEADERS
  show ?thesis
  proof (cases "find_sub CRLFCRLF (buffer rb)")
    case None
    with RECEIVING_HEADERS assms(1) show ?thesis
      by (auto simp: try_parse_def body_available_def)
  next
    case (Some i)
    from find_sub_Some [OF Some] have len: "i + 4 \<le> length (buffer rb)" by simp
    show ?thesis
    proof (cases "get_is_chunked (take i (buffer rb))")
      case True
      with RECEIVING_HEADERS Some assms(1)
      have "check_final_chunk (rb\<lparr>headers_end := Some (i + 4), is_chunked := True,
                                  state := RECEIVING_CHUNKS\<rparr>) = Inr rb'
            \<or> rb' = rb\<lparr>headers_end := Some (i + 4), is_chunked := True,
                         state := RECEIVING_CHUNKS\<rparr>"
        by (simp add: try_parse_def Let_def split: if_splits)
      then have "state rb' \<noteq> COMPLETE"
        using check_final_chunk_not_complete
          [of "rb\<lparr>headers_end := Some (i + 4), is_chunked := True, state := RECEIVING_CHUNKS\<rparr>" rb']
        by auto
      then show ?thesis by (simp add: body_available_def)
    next
      case False
      with RECEIVING_HEADERS Some assms(1) len show ?thesis
        by (cases "get_content_length (take i (buffer rb))";
            cases "get_http_method (take i (buffer rb))")
           (auto simp: try_parse_def Let_def body_available_def
              split: if_splits option.splits)
    qed
  qed
next
  case RECEIVING_BODY
  with assms(1) show ?thesis
    by (cases "headers_end rb"; cases "content_length rb")
       (auto simp: try_parse_def body_size_def body_available_def split: if_splits)
next
  case COMPLETE
  with assms show ?thesis by (simp add: try_parse_def)
next
  case RECEIVING_CHUNKS
  with assms(1) have "check_final_chunk rb = Inr rb'" by (simp add: try_parse_def)
  from check_final_chunk_not_complete [OF this] RECEIVING_CHUNKS
  show ?thesis by (simp add: body_available_def)
next
  case CHUNKS_COMPLETE
  with assms(1) show ?thesis by (simp add: try_parse_def body_available_def)
next
  case ERROR
  with assms(1) show ?thesis by (simp add: try_parse_def body_available_def)
qed

lemma feed_data_body_available:
  assumes "feed_data d rb = Inr (b, rb')" and "body_available rb"
  shows "body_available rb'"
proof -
  let ?rb = "rb\<lparr>buffer := buffer rb @ d, pos := length (buffer rb)\<rparr>"
  from assms(1) have tp: "try_parse ?rb = Inr rb'"
    by (simp add: feed_data_def split: sum.splits)
  from assms(2) have "state ?rb = COMPLETE \<longrightarrow> body_available ?rb"
    by (auto simp: body_available_def split: option.splits)
  with tp show ?thesis by (rule try_parse_body_available)
qed

lemma feed_all_body_available:
  "feed_all ps rb = Inr rb' \<Longrightarrow> body_available rb \<Longrightarrow> body_available rb'"
proof (induction ps arbitrary: rb)
  case Nil
  then show ?case by simp
next
  case (Cons p ps)
  from Cons.prems(1) obtain b rb1 where f: "feed_data p rb = Inr (b, rb1)"
    and r: "feed_all ps rb1 = Inr rb'"
    by (auto split: sum.splits)
  from feed_data_body_available [OF f Cons.prems(2)] have "body_available rb1" .
  with Cons.IH [OF r] show ?case .
qed

lemma py_slice_length:
  assumes "0 \<le> L" and "int h + L \<le> int (length xs)"
  shows "int (length (py_slice xs (int h) (int h + L))) = L"
proof -
  define n where "n = nat L"
  with assms(1) have L: "L = int n" by simp
  with assms(2) have le: "h + n \<le> length xs" by simp
  have "py_slice xs (int h) (int (h + n)) = take (h + n - h) (drop h xs)"
    by (rule py_slice_nat)
  with le L show ?thesis by simp
qed

text \<open>
  C6, as stated, fails: a request that declares the length -1 reaches \<open>COMPLETE\<close>
  and its body is empty, which is not a byte string of -1 bytes.
\<close>

theorem negative_length_body_not_that_long:
  "feed_all [minus_one_request] RequestBuffer_init =
     Inr \<lparr>buffer = minus_one_request, pos = 0, state = COMPLETE, content_length = Some (- 1),
          is_chunked = False, headers_end = Some 38, error = None\<rparr>
   \<and> get_request_body
       \<lparr>buffer = minus_one_request, pos = 0, state = COMPLETE, content_length = Some (- 1),
        is_chunked = False, headers_end = Some 38, error = None\<rparr> = Some (Inr [])
   \<and> int (length ([] :: bytes)) \<noteq> - 1"
  by code_simp

text \<open>
  C6, amended. For every non-chunked request that declares a Content-Length \<open>L\<close> that
  is not negative and has reached state \<open>COMPLETE\<close>, however it was fed,
  \<open>get_request_body\<close> returns a byte string of exactly \<open>L\<close> bytes.
\<close>

theorem declared_length_body:
  assumes "feed_all ps RequestBuffer_init = Inr rb"
    and "state rb = COMPLETE"
    and "\<not> is_chunked rb"
    and "content_length rb = Some L"
    and "0 \<le> L"
  shows "\<exists>body. get_request_body rb = Some (Inr body) \<and> int (length body) = L"
proof (cases "L = 0")
  case True
  with assms(2,4) show ?thesis by (simp add: get_request_body_def)
next
  case False
  have "body_available RequestBuffer_init"
    by (simp add: body_available_def RequestBuffer_init_def)
  from feed_all_body_available [OF assms(1) this] assms(2,4,5) False
  obtain h where h: "headers_end rb = Some h" "int h + L \<le> int (length (buffer rb))"
    by (auto simp: body_available_def split: option.splits)
  from py_slice_length [OF assms(5) h(2)] h(1) assms(2,4) False show ?thesis
    by (simp add: get_request_body_def)
qed

theorem declared_length_body_witness:
  "feed_all [take 30 hello_request, drop 30 hello_request] RequestBuffer_init =
     Inr \<lparr>buffer = hello_request, pos = 30, state = COMPLETE, content_length = Some 12,
          is_chunked = False, headers_end = Some 49, error = None\<rparr>
   \<and> (\<exists>body. get_request_body
        \<lparr>buffer = hello_request, pos = 30, state = COMPLETE, content_length = Some 12,
         is_chunked = False, headers_end = Some 49, error = None\<rparr> = Some (Inr body)
        \<and> int (length body) = 12)"
proof -
  let ?rb = "\<lparr>buffer = hello_request, pos = 30, state = COMPLETE, content_length = Some 12,
          is_chunked = False, headers_end = Some 49, error = None\<rparr>"
  have a: "feed_all [take 30 hello_request, drop 30 hello_request] RequestBuffer_init = Inr ?rb"
    by code_simp
  have b: "state ?rb = COMPLETE" by simp
  have c: "\<not> is_chunked ?rb" by simp
  have d: "content_length ?rb = Some 12" by simp
  from declared_length_body [OF a b c d] a show ?thesis by simp
qed

subsection \<open>Feeding a request in pieces\<close>

declare legal_chunks.simps [simp del]
declare has_final_chunk_loop.simps [simp del]


lemma prefix_drop_eq:
  assumes "prefix p c" and "k \<le> length p"
  shows "prefix (drop k p) (drop k c)" and "(drop k p = drop k c) = (p = c)"
    and "take k p = take k c"
proof -
  from assms(1) obtain q where c: "c = p @ q" by (auto simp: prefix_def)
  with assms(2) show "prefix (drop k p) (drop k c)" by simp
  from c assms(2) show "(drop k p = drop k c) = (p = c)" by simp
  from c assms(2) show "take k p = take k c" by simp
qed

lemma hfc_prefix:
  "legal_chunks c \<Longrightarrow> prefix p c \<Longrightarrow> has_final_chunk_loop p = Inr (p = c)"
proof (induction c arbitrary: p rule: legal_chunks.induct)
  case (1 chunks)
  from "1.prems"(2) obtain q where q: "chunks = p @ q" by (auto simp: prefix_def)
  from "1.prems"(1) obtain cse where cse: "find_sub CRLF chunks = Some cse"
    by (subst (asm) legal_chunks.simps) (auto split: option.splits)
  from "1.prems"(1) cse obtain cs where cs: "chunk_size_of chunks cse = Some cs"
    by (subst (asm) legal_chunks.simps) (auto split: option.splits)
  from "1.prems"(1) cse cs have nonneg: "0 \<le> cs"
    by (subst (asm) legal_chunks.simps) (auto split: if_splits)
  define n where "n = nat cs"
  with nonneg have csn: "cs = int n" by simp
  from find_sub_Some [OF cse] have len: "cse + 2 \<le> length chunks" by simp
  show ?case
  proof (cases "cse + 2 \<le> length p")
    case False
    with cse q have "find_sub CRLF p = None"
      by (intro find_sub_prefix_None [of CRLF p q cse]) auto
    moreover from False len have "p \<noteq> chunks" by auto
    ultimately show ?thesis by (subst has_final_chunk_loop.simps) simp
  next
    case True
    with cse q have fp: "find_sub CRLF p = Some cse"
      by (intro find_sub_prefix_Some [of CRLF p q cse]) auto
    from True q have "take cse p = take cse chunks" by simp
    with cs have csp: "chunk_size_of p cse = Some cs" by (simp add: chunk_size_of_def)
    from True have pne: "p \<noteq> []" by auto
    show ?thesis
    proof (cases "cs = 0")
      case True
      with "1.prems"(1) cse cs have fin: "drop cse chunks = CRLFCRLF"
        by (subst (asm) legal_chunks.simps) simp
      then have "length (drop cse chunks) = 4" by simp
      with len have lc: "length chunks = cse + 4" by simp
      from q lc have lp: "length p \<le> cse + 4" by simp
      show ?thesis
      proof (cases "length p = cse + 4")
        case True
        with q lc have "p = chunks" by simp
        with fin have "py_slice p (int cse) (int cse + 4) = CRLFCRLF"
          using py_slice_nat [of p cse "cse + 4"] by simp
        with fp csp \<open>cs = 0\<close> True \<open>p = chunks\<close> pne show ?thesis
          by (subst has_final_chunk_loop.simps) simp
      next
        case False
        with lp have "length p < cse + 4" by simp
        moreover from this lc have "p \<noteq> chunks" by auto
        ultimately show ?thesis using fp csp \<open>cs = 0\<close> pne
          by (subst has_final_chunk_loop.simps) simp
      qed
    next
      case False
      with nonneg csn have npos: "0 < n" by simp
      define full where "full = cse + 2 + n + 2"
      from "1.prems"(1) cse cs False nonneg
      have lfull: "full \<le> length chunks"
        and crlf: "take 2 (drop (cse + 2 + n) chunks) = CRLF"
        and rest: "legal_chunks (drop full chunks)"
        by (subst (asm) legal_chunks.simps; simp add: n_def full_def split: if_splits)+
      have fint: "int cse + 2 + cs + 2 = int full" by (simp add: full_def csn)
      have fint2: "int full - 2 = int (cse + 2 + n)" by (simp add: full_def)
      show ?thesis
      proof (cases "full \<le> length p")
        case False
        with lfull have "p \<noteq> chunks" by auto
        with False fp csp \<open>cs \<noteq> 0\<close> pne fint show ?thesis
          by (subst has_final_chunk_loop.simps) simp
      next
        case True
        with q have "take 2 (drop (cse + 2 + n) p) = take 2 (drop (cse + 2 + n) chunks)"
          by (simp add: full_def)
        with crlf have "take (full - (cse + 2 + n)) (drop (cse + 2 + n) p) = CRLF"
          by (simp add: full_def)
        then have "py_slice p (int (cse + 2 + n)) (int full) = CRLF"
          by (simp only: py_slice_nat)
        then have pc: "py_slice p (int cse + 2 + cs + 2 - 2) (int cse + 2 + cs + 2) = CRLF"
          by (simp only: fint fint2)
        have pf: "py_slice_from p (int cse + 2 + cs + 2) = drop full p"
          unfolding fint py_slice_from_nat ..
        from prefix_drop_eq [OF "1.prems"(2) True]
        have pre: "prefix (drop full p) (drop full chunks)"
          and iff: "(drop full p = drop full chunks) = (p = chunks)" by simp_all
        have "has_final_chunk_loop (drop full p) = Inr (drop full p = drop full chunks)"
          using "1.IH" [OF cse cs, of "drop full p"] nonneg False lfull crlf rest pre
          unfolding full_def n_def by simp
        with iff fp csp \<open>cs \<noteq> 0\<close> pne True fint pc pf show ?thesis
          by (subst has_final_chunk_loop.simps) simp
      qed
    qed
  qed
qed




lemma legal_chunks_nonempty: "legal_chunks c \<Longrightarrow> c \<noteq> []"
  by (subst (asm) legal_chunks.simps) auto

lemma check_final_chunk_pos:
  "check_final_chunk (rb\<lparr>pos := k\<rparr>) =
     (case check_final_chunk rb of Inl e \<Rightarrow> Inl e | Inr rb' \<Rightarrow> Inr (rb'\<lparr>pos := k\<rparr>))"
  by (simp add: check_final_chunk_def has_final_chunk_def he_or_0_def split: sum.splits)

lemma try_parse_headers_unfold:
  assumes "state rb = RECEIVING_HEADERS" and "find_sub CRLFCRLF (buffer rb) = Some i"
  shows "try_parse rb =
    (if get_is_chunked (take i (buffer rb)) then
       (if i + 4 < length (buffer rb)
        then check_final_chunk (rb\<lparr>headers_end := Some (i + 4), is_chunked := True,
                                    state := RECEIVING_CHUNKS\<rparr>)
        else Inr (rb\<lparr>headers_end := Some (i + 4), is_chunked := True,
                      state := RECEIVING_CHUNKS\<rparr>))
     else
       (case get_content_length (take i (buffer rb)) of
          Inl e \<Rightarrow> Inl e
        | Inr cl \<Rightarrow>
           (case get_http_method (take i (buffer rb)) of
              Inl e \<Rightarrow>
                if e = BadRequestError
                then Inr (rb\<lparr>headers_end := Some (i + 4), is_chunked := False,
                              content_length := cl, state := ERROR, error := Some BAD_REQUEST\<rparr>)
                else Inl e
            | Inr m \<Rightarrow>
                if cl = None \<and> m \<in> {''PUT'', ''POST'', ''PATCH''}
                then Inr (rb\<lparr>headers_end := Some (i + 4), is_chunked := False,
                              content_length := cl, state := ERROR, error := Some BAD_REQUEST\<rparr>)
                else if cl = None \<or> cl = Some 0
                then Inr (rb\<lparr>headers_end := Some (i + 4), is_chunked := False,
                              content_length := cl, state := COMPLETE\<rparr>)
                else if int (length (buffer rb)) - int (i + 4) \<ge> the cl
                then Inr (rb\<lparr>headers_end := Some (i + 4), is_chunked := False,
                              content_length := cl, state := COMPLETE\<rparr>)
                else Inr (rb\<lparr>headers_end := Some (i + 4), is_chunked := False,
                              content_length := cl, state := RECEIVING_BODY\<rparr>))))"
proof (cases "get_is_chunked (take i (buffer rb))")
  case True
  with assms show ?thesis by (simp add: try_parse_def Let_def)
next
  case False
  show ?thesis
  proof (cases "get_content_length (take i (buffer rb))")
    case (Inl e)
    with assms False show ?thesis by (simp add: try_parse_def Let_def)
  next
    case (Inr cl)
    show ?thesis
    proof (cases "get_http_method (take i (buffer rb))")
      case m: (Inl e)
      with assms False Inr show ?thesis by (simp add: try_parse_def Let_def)
    next
      case m: (Inr meth)
      with assms False Inr show ?thesis by (simp add: try_parse_def Let_def)
    qed
  qed
qed

lemma try_parse_pos:
  "try_parse (rb\<lparr>pos := k\<rparr>) =
     (case try_parse rb of Inl e \<Rightarrow> Inl e | Inr rb' \<Rightarrow> Inr (rb'\<lparr>pos := k\<rparr>))"
proof (cases "state rb")
  case RECEIVING_HEADERS
  show ?thesis
  proof (cases "find_sub CRLFCRLF (buffer rb)")
    case None
    with RECEIVING_HEADERS show ?thesis by (simp add: try_parse_def)
  next
    case (Some i)
    from RECEIVING_HEADERS Some
    have a: "state (rb\<lparr>pos := k\<rparr>) = RECEIVING_HEADERS"
      and b: "find_sub CRLFCRLF (buffer (rb\<lparr>pos := k\<rparr>)) = Some i"
      by simp_all
    have cf: "check_final_chunk
                (rb\<lparr>pos := k, headers_end := Some (i + 4), is_chunked := True,
                    state := RECEIVING_CHUNKS\<rparr>) =
              (case check_final_chunk
                      (rb\<lparr>headers_end := Some (i + 4), is_chunked := True,
                          state := RECEIVING_CHUNKS\<rparr>) of
                 Inl e \<Rightarrow> Inl e | Inr rb' \<Rightarrow> Inr (rb'\<lparr>pos := k\<rparr>))"
      by (simp add: check_final_chunk_def has_final_chunk_def he_or_0_def split: sum.splits)
    show ?thesis
      unfolding try_parse_headers_unfold [OF a b]
        try_parse_headers_unfold [OF RECEIVING_HEADERS Some]
      using cf
      by (cases "get_content_length (take i (buffer rb))";
          cases "get_http_method (take i (buffer rb))") simp_all
  qed
next
  case RECEIVING_BODY
  then show ?thesis
    by (cases "headers_end rb"; cases "content_length rb")
       (simp_all add: try_parse_def body_size_def)
next
  case COMPLETE
  then show ?thesis by (simp add: try_parse_def)
next
  case RECEIVING_CHUNKS
  then show ?thesis by (simp add: try_parse_def check_final_chunk_pos)
next
  case CHUNKS_COMPLETE
  then show ?thesis by (simp add: try_parse_def)
next
  case ERROR
  then show ?thesis by (simp add: try_parse_def)
qed

lemma prefix_sep:
  assumes "prefix q r" and "find_sub CRLFCRLF r = Some i"
  shows "find_sub CRLFCRLF q = None
         \<or> (find_sub CRLFCRLF q = Some i \<and> take i q = take i r
            \<and> prefix (drop (i + 4) q) (drop (i + 4) r) \<and> i + 4 \<le> length q)"
proof (cases "find_sub CRLFCRLF q")
  case None
  then show ?thesis by simp
next
  case (Some j)
  from assms(1) obtain t where t: "r = q @ t" by (auto simp: prefix_def)
  from find_sub_append [OF Some, of t] assms(2) t have ji: "j = i" by simp
  from find_sub_Some [OF Some] ji have len: "i + 4 \<le> length q" by simp
  with t have "take i q = take i r" by simp
  with Some ji len prefix_drop_eq(1) [OF assms(1) len] show ?thesis by simp
qed

lemma parse_no_sep:
  "find_sub CRLFCRLF q = None \<Longrightarrow>
   try_parse (RequestBuffer_init\<lparr>buffer := q\<rparr>) = Inr (RequestBuffer_init\<lparr>buffer := q\<rparr>)"
  by (simp add: try_parse_def RequestBuffer_init_def)

lemma parse_chunked:
  assumes "find_sub CRLFCRLF q = Some i" and "get_is_chunked (take i q)"
    and "legal_chunks c" and "prefix (drop (i + 4) q) c"
  shows "try_parse (RequestBuffer_init\<lparr>buffer := q\<rparr>) =
           Inr (RequestBuffer_init\<lparr>buffer := q, headers_end := Some (i + 4), is_chunked := True,
                  state := (if drop (i + 4) q = c then CHUNKS_COMPLETE else RECEIVING_CHUNKS)\<rparr>)"
proof -
  let ?rb = "RequestBuffer_init\<lparr>buffer := q\<rparr>"
  have a: "state ?rb = RECEIVING_HEADERS" by (simp add: RequestBuffer_init_def)
  from assms(1) have b: "find_sub CRLFCRLF (buffer ?rb) = Some i" by simp
  from hfc_prefix [OF assms(3,4)]
  have h: "has_final_chunk_loop (drop (i + 4) q) = Inr (drop (i + 4) q = c)" .
  from find_sub_Some [OF assms(1)] have len: "i + 4 \<le> length q" by simp
  show ?thesis
  proof (cases "i + 4 < length q")
    case True
    with assms(2) h show ?thesis
      unfolding try_parse_headers_unfold [OF a b]
      by (simp add: check_final_chunk_def has_final_chunk_def he_or_0_def)
  next
    case False
    with len have "drop (i + 4) q = []" by simp
    with legal_chunks_nonempty [OF assms(3)] have "drop (i + 4) q \<noteq> c" by simp
    with False assms(2) show ?thesis
      unfolding try_parse_headers_unfold [OF a b] by simp
  qed
qed

lemma continue_chunked:
  assumes "legal_chunks c" and "prefix (drop h q') c"
  shows "try_parse (RequestBuffer_init\<lparr>buffer := q', headers_end := Some h, is_chunked := True,
                      state := RECEIVING_CHUNKS\<rparr>) =
           Inr (RequestBuffer_init\<lparr>buffer := q', headers_end := Some h, is_chunked := True,
                  state := (if drop h q' = c then CHUNKS_COMPLETE else RECEIVING_CHUNKS)\<rparr>)"
  using hfc_prefix [OF assms]
  by (simp add: try_parse_def check_final_chunk_def has_final_chunk_def he_or_0_def)

lemma legal_requestD:
  assumes "legal_request r"
  shows "\<exists>i m. find_sub CRLFCRLF r = Some i
           \<and> get_http_method (take i r) = Inr m
           \<and> (get_is_chunked (take i r) \<longrightarrow> legal_chunks (drop (i + 4) r))
           \<and> (\<not> get_is_chunked (take i r) \<longrightarrow>
                 (\<exists>cl. get_content_length (take i r) = Inr cl))"
  using assms
  by (auto simp: legal_request_def split: option.splits sum.splits if_splits)

lemma try_parse_buffer:
  assumes "try_parse rb = Inr rb'"
  shows "buffer rb' = buffer rb"
proof (cases "state rb = RECEIVING_HEADERS")
  case True
  show ?thesis
  proof (cases "find_sub CRLFCRLF (buffer rb)")
    case None
    with True assms show ?thesis by (simp add: try_parse_def)
  next
    case (Some i)
    from assms show ?thesis
      unfolding try_parse_headers_unfold [OF True Some]
      by (auto simp: check_final_chunk_def split: if_splits sum.splits)
  qed
next
  case False
  show ?thesis
  proof (cases "state rb = RECEIVING_BODY")
    case True
    with assms show ?thesis
      by (cases "headers_end rb"; cases "content_length rb")
         (auto simp: try_parse_def body_size_def split: if_splits)
  next
    case rb: False
    with False assms show ?thesis
      by (auto simp: try_parse_def check_final_chunk_def split: if_splits sum.splits)
  qed
qed

lemma no_raise:
  assumes "legal_request r" and "prefix q r"
  shows "\<exists>x. try_parse (RequestBuffer_init\<lparr>buffer := q\<rparr>) = Inr x"
proof -
  from legal_requestD [OF assms(1)] obtain i m where sep: "find_sub CRLFCRLF r = Some i"
    and m: "get_http_method (take i r) = Inr m"
    and ch: "get_is_chunked (take i r) \<Longrightarrow> legal_chunks (drop (i + 4) r)"
    and pl: "\<not> get_is_chunked (take i r) \<Longrightarrow> \<exists>cl. get_content_length (take i r) = Inr cl"
    by blast
  from prefix_sep [OF assms(2) sep] show ?thesis
  proof
    assume "find_sub CRLFCRLF q = None"
    from parse_no_sep [OF this] show ?thesis by simp
  next
    assume h: "find_sub CRLFCRLF q = Some i \<and> take i q = take i r
            \<and> prefix (drop (i + 4) q) (drop (i + 4) r) \<and> i + 4 \<le> length q"
    show ?thesis
    proof (cases "get_is_chunked (take i r)")
      case True
      with h parse_chunked [of q i "drop (i + 4) r"] ch show ?thesis by simp
    next
      case False
      from pl [OF False] obtain cl where cl: "get_content_length (take i r) = Inr cl" ..
      let ?rb = "RequestBuffer_init\<lparr>buffer := q\<rparr>"
      have a: "state ?rb = RECEIVING_HEADERS" by (simp add: RequestBuffer_init_def)
      from h have b: "find_sub CRLFCRLF (buffer ?rb) = Some i" by simp
      from h False cl m show ?thesis
        unfolding try_parse_headers_unfold [OF a b] by simp
    qed
  qed
qed

lemma absorb_core:
  assumes "legal_request r" and "prefix (acc @ d) r"
    and "try_parse (RequestBuffer_init\<lparr>buffer := acc\<rparr>) = Inr w"
  shows "try_parse (w\<lparr>buffer := acc @ d\<rparr>) = try_parse (RequestBuffer_init\<lparr>buffer := acc @ d\<rparr>)"
proof -
  from legal_requestD [OF assms(1)] obtain i m where sep: "find_sub CRLFCRLF r = Some i"
    and m: "get_http_method (take i r) = Inr m"
    and ch: "get_is_chunked (take i r) \<Longrightarrow> legal_chunks (drop (i + 4) r)"
    and pl: "\<not> get_is_chunked (take i r) \<Longrightarrow> \<exists>cl. get_content_length (take i r) = Inr cl"
    by blast
  from assms(2) have pacc: "prefix acc r" by (rule append_prefixD)
  show ?thesis
  proof (cases "find_sub CRLFCRLF acc")
    case None
    from parse_no_sep [OF None] assms(3) have "w = RequestBuffer_init\<lparr>buffer := acc\<rparr>" by simp
    then show ?thesis by simp
  next
    case (Some j)
    with prefix_sep [OF pacc sep]
    have A: "find_sub CRLFCRLF acc = Some i" "take i acc = take i r"
      "prefix (drop (i + 4) acc) (drop (i + 4) r)" "i + 4 \<le> length acc"
      by auto
    from find_sub_append [OF A(1), of d] prefix_sep [OF assms(2) sep]
    have B: "find_sub CRLFCRLF (acc @ d) = Some i" "take i (acc @ d) = take i r"
      "prefix (drop (i + 4) (acc @ d)) (drop (i + 4) r)"
      by auto
    show ?thesis
    proof (cases "get_is_chunked (take i r)")
      case True
      let ?c = "drop (i + 4) r"
      from ch [OF True] have lc: "legal_chunks ?c" .
      from parse_chunked [OF A(1) _ lc A(3)] True A(2) assms(3)
      have w: "w = RequestBuffer_init\<lparr>buffer := acc, headers_end := Some (i + 4),
                     is_chunked := True,
                     state := (if drop (i + 4) acc = ?c then CHUNKS_COMPLETE
                               else RECEIVING_CHUNKS)\<rparr>"
        by simp
      from parse_chunked [OF B(1) _ lc B(3)] True B(2)
      have rhs: "try_parse (RequestBuffer_init\<lparr>buffer := acc @ d\<rparr>) =
          Inr (RequestBuffer_init\<lparr>buffer := acc @ d, headers_end := Some (i + 4),
                 is_chunked := True,
                 state := (if drop (i + 4) (acc @ d) = ?c then CHUNKS_COMPLETE
                           else RECEIVING_CHUNKS)\<rparr>)"
        by simp
      show ?thesis
      proof (cases "drop (i + 4) acc = ?c")
        case c: True
        from A(4) have "drop (i + 4) (acc @ d) = drop (i + 4) acc @ d" by simp
        with B(3) c have "prefix (?c @ d) ?c" by simp
        then have "d = []" by (metis append.right_neutral prefix_order.antisym prefix_append
              same_append_eq prefixI)
        with w c rhs show ?thesis by (simp add: try_parse_def)
      next
        case c: False
        with w have "w\<lparr>buffer := acc @ d\<rparr> =
            RequestBuffer_init\<lparr>buffer := acc @ d, headers_end := Some (i + 4),
              is_chunked := True, state := RECEIVING_CHUNKS\<rparr>"
          by simp
        with continue_chunked [OF lc, of "i + 4" "acc @ d"] B(3) rhs show ?thesis by simp
      qed
    next
      case False
      from pl [OF False] obtain cl where cl: "get_content_length (take i r) = Inr cl" ..
      let ?A = "RequestBuffer_init\<lparr>buffer := acc\<rparr>"
      let ?B = "RequestBuffer_init\<lparr>buffer := acc @ d\<rparr>"
      have aA: "state ?A = RECEIVING_HEADERS" and aB: "state ?B = RECEIVING_HEADERS"
        by (simp_all add: RequestBuffer_init_def)
      from A(1) have bA: "find_sub CRLFCRLF (buffer ?A) = Some i" by simp
      from B(1) have bB: "find_sub CRLFCRLF (buffer ?B) = Some i" by simp
      from A(2) B(2) have tk: "take i (buffer ?A) = take i r" "take i (buffer ?B) = take i r"
        by simp_all
      from assms(3) False cl m A(4) show ?thesis
        unfolding try_parse_headers_unfold [OF aA bA] try_parse_headers_unfold [OF aB bB] tk
        by (cases cl)
           (auto simp: try_parse_def body_size_def RequestBuffer_init_def split: if_splits)
    qed
  qed
qed

lemma feed_data_init:
  "feed_data q RequestBuffer_init =
     (case try_parse (RequestBuffer_init\<lparr>buffer := q\<rparr>) of
        Inl e \<Rightarrow> Inl e
      | Inr rb' \<Rightarrow> Inr (state rb' \<in> {COMPLETE, CHUNKS_COMPLETE}, rb'))"
proof -
  have "RequestBuffer_init\<lparr>buffer := buffer RequestBuffer_init @ q,
                            pos := length (buffer RequestBuffer_init)\<rparr>
        = RequestBuffer_init\<lparr>buffer := q\<rparr>"
    by (simp add: RequestBuffer_init_def)
  then show ?thesis by (simp add: feed_data_def)
qed

lemma feed_step:
  assumes "legal_request r" and "prefix (acc @ d) r"
    and "feed_data acc RequestBuffer_init = Inr (b, w)"
    and "st\<lparr>pos := 0\<rparr> = w\<lparr>pos := 0\<rparr>"
  shows "\<exists>b' st' w'. feed_data d st = Inr (b', st')
           \<and> feed_data (acc @ d) RequestBuffer_init = Inr (b', w')
           \<and> st'\<lparr>pos := 0\<rparr> = w'\<lparr>pos := 0\<rparr>"
proof -
  from assms(3) have tw: "try_parse (RequestBuffer_init\<lparr>buffer := acc\<rparr>) = Inr w"
    by (simp add: feed_data_init split: sum.splits)
  from try_parse_buffer [OF tw] have bw: "buffer w = acc" by simp
  from assms(4) have "buffer (st\<lparr>pos := 0\<rparr>) = buffer (w\<lparr>pos := 0\<rparr>)" by simp
  with bw have bst: "buffer st = acc" by simp
  from no_raise [OF assms(1,2)] obtain x
    where x: "try_parse (RequestBuffer_init\<lparr>buffer := acc @ d\<rparr>) = Inr x" ..
  from absorb_core [OF assms(1,2) tw] x
  have c: "try_parse (w\<lparr>buffer := acc @ d\<rparr>) = Inr x" by simp
  have "st\<lparr>buffer := acc @ d, pos := length acc\<rparr>
          = (st\<lparr>pos := 0\<rparr>)\<lparr>buffer := acc @ d, pos := length acc\<rparr>"
    by simp
  also have "\<dots> = (w\<lparr>buffer := acc @ d\<rparr>)\<lparr>pos := length acc\<rparr>"
    unfolding assms(4) by simp
  finally have "try_parse (st\<lparr>buffer := acc @ d, pos := length acc\<rparr>)
                  = Inr (x\<lparr>pos := length acc\<rparr>)"
    using try_parse_pos [where rb = "w\<lparr>buffer := acc @ d\<rparr>" and k = "length acc"] c
    by simp
  with bst have "feed_data d st
                   = Inr (state x \<in> {COMPLETE, CHUNKS_COMPLETE}, x\<lparr>pos := length acc\<rparr>)"
    by (simp add: feed_data_def)
  moreover from x have "feed_data (acc @ d) RequestBuffer_init
                   = Inr (state x \<in> {COMPLETE, CHUNKS_COMPLETE}, x)"
    by (simp add: feed_data_init)
  ultimately show ?thesis by simp
qed

lemma feed_run:
  assumes "legal_request r"
  shows "prefix (acc @ concat ps) r \<Longrightarrow> feed_data acc RequestBuffer_init = Inr (b, w) \<Longrightarrow>
         st\<lparr>pos := 0\<rparr> = w\<lparr>pos := 0\<rparr> \<Longrightarrow>
         \<exists>b' st' w'. feed_all ps st = Inr st'
           \<and> feed_data (acc @ concat ps) RequestBuffer_init = Inr (b', w')
           \<and> st'\<lparr>pos := 0\<rparr> = w'\<lparr>pos := 0\<rparr>"
proof (induction ps arbitrary: acc b w st)
  case Nil
  then show ?case by simp
next
  case (Cons p ps)
  from Cons.prems(1) have pre: "prefix (acc @ p) r"
    by (metis append.assoc append_prefixD concat.simps(2))
  from feed_step [OF assms pre Cons.prems(2,3)] obtain b1 st1 w1
    where s: "feed_data p st = Inr (b1, st1)"
      "feed_data (acc @ p) RequestBuffer_init = Inr (b1, w1)"
      "st1\<lparr>pos := 0\<rparr> = w1\<lparr>pos := 0\<rparr>"
    by blast
  from Cons.prems(1) have "prefix ((acc @ p) @ concat ps) r" by simp
  from Cons.IH [OF this s(2,3)] s(1) show ?case by simp
qed

lemma getters_pos:
  "state (rb\<lparr>pos := k\<rparr>) = state rb"
  "get_request_headers (rb\<lparr>pos := k\<rparr>) = get_request_headers rb"
  "get_request_body (rb\<lparr>pos := k\<rparr>) = get_request_body rb"
  by (simp_all add: get_request_headers_def get_request_body_def he_or_0_def
      split: option.splits)

lemma legal_request_complete:
  assumes "legal_request r"
  shows "\<exists>w. feed_data r RequestBuffer_init = Inr (True, w)"
proof -
  from assms obtain i where sep: "find_sub CRLFCRLF r = Some i"
    by (auto simp: legal_request_def split: option.splits)
  from assms sep obtain m where m: "get_http_method (take i r) = Inr m"
    by (auto simp: legal_request_def split: sum.splits)
  from find_sub_Some [OF sep] have len: "i + 4 \<le> length r" by simp
  show ?thesis
  proof (cases "get_is_chunked (take i r)")
    case True
    with assms sep m have lc: "legal_chunks (drop (i + 4) r)"
      by (simp add: legal_request_def)
    from parse_chunked [OF sep True lc] show ?thesis
      by (simp add: feed_data_init)
  next
    case False
    let ?rb = "RequestBuffer_init\<lparr>buffer := r\<rparr>"
    have a: "state ?rb = RECEIVING_HEADERS" by (simp add: RequestBuffer_init_def)
    from sep have b: "find_sub CRLFCRLF (buffer ?rb) = Some i" by simp
    from assms sep m False len show ?thesis
      unfolding feed_data_init try_parse_headers_unfold [OF a b]
      by (cases "get_content_length (take i r)")
         (auto simp: legal_request_def split: option.splits)
  qed
qed

text \<open>
  C5. For every legal request and every way of cutting its bytes into pieces, feeding
  the pieces in order to a fresh buffer raises nothing and ends in the same parser state,
  with the same result of \<open>get_request_headers\<close> and the same result of
  \<open>get_request_body\<close>, as feeding the whole request in one call; that state is
  \<open>COMPLETE\<close> or \<open>CHUNKS_COMPLETE\<close>.
\<close>

theorem split_feeding_same_result:
  assumes "legal_request r" and "concat ps = r"
  shows "\<exists>st st'. feed_all ps RequestBuffer_init = Inr st
           \<and> feed_all [r] RequestBuffer_init = Inr st'
           \<and> state st = state st'
           \<and> get_request_headers st = get_request_headers st'
           \<and> get_request_body st = get_request_body st'
           \<and> state st' \<in> {COMPLETE, CHUNKS_COMPLETE}"
proof -
  have start: "feed_data [] RequestBuffer_init = Inr (False, RequestBuffer_init)"
    by (simp add: feed_data_def try_parse_def RequestBuffer_init_def)
  from assms(2) have "prefix ([] @ concat ps) r" by simp
  from feed_run [OF assms(1) this start refl] assms(2) obtain b' st w'
    where run: "feed_all ps RequestBuffer_init = Inr st"
      "feed_data r RequestBuffer_init = Inr (b', w')"
      "st\<lparr>pos := 0\<rparr> = w'\<lparr>pos := 0\<rparr>"
    by auto
  from run(2) have whole: "feed_all [r] RequestBuffer_init = Inr w'" by simp
  from run(3) have "state (st\<lparr>pos := 0\<rparr>) = state (w'\<lparr>pos := 0\<rparr>)"
    and "get_request_headers (st\<lparr>pos := 0\<rparr>) = get_request_headers (w'\<lparr>pos := 0\<rparr>)"
    and "get_request_body (st\<lparr>pos := 0\<rparr>) = get_request_body (w'\<lparr>pos := 0\<rparr>)"
    by simp_all
  then have "state st = state w'"
    and "get_request_headers st = get_request_headers w'"
    and "get_request_body st = get_request_body w'"
    unfolding getters_pos by simp_all
  moreover from legal_request_complete [OF assms(1)] run(2)
  have "state w' \<in> {COMPLETE, CHUNKS_COMPLETE}"
    by (auto simp: feed_data_def split: sum.splits)
  ultimately show ?thesis using run(1) whole by blast
qed

theorem split_feeding_same_result_witness:
  "legal_request chunked_request
   \<and> concat chunked_pieces = chunked_request
   \<and> (\<exists>st st'. feed_all chunked_pieces RequestBuffer_init = Inr st
          \<and> feed_all [chunked_request] RequestBuffer_init = Inr st'
          \<and> state st = state st'
          \<and> get_request_headers st = get_request_headers st'
          \<and> get_request_body st = get_request_body st'
          \<and> state st' \<in> {COMPLETE, CHUNKS_COMPLETE})"
proof -
  have a: "legal_request chunked_request" by code_simp
  have b: "concat chunked_pieces = chunked_request" by code_simp
  from split_feeding_same_result [OF a b] a b show ?thesis by blast
qed

end
